theory Spec2Isabelle
  imports Complex_Main "HOL-Library.Option_ord"
begin

section \<open>Python values and failures\<close>

text \<open>
  Python integers are unbounded and modelled by \<open>int\<close>.  A float is the real number it
  denotes.  The float product of the cache sizing is rounded to a double as the machine
  does (\<open>float_mul\<close> below); the scores of the eviction policies are idealised, their sums
  and quotients being taken exactly.  Every exception the embedded
  functions can raise is a value of \<open>py_error\<close>; a function that may raise returns
  \<open>py_error + 'a\<close> with \<open>Inl\<close> for the exception.
\<close>

datatype py_error = AssertionError | IndexError | RuntimeError | ValueError | ZeroDivisionError

text \<open>Python's \<open>round(x)\<close> on a float: to the nearest integer, halves to the even one.\<close>

definition py_round :: "real \<Rightarrow> int" where
  "py_round x =
     (let fl = \<lfloor>x\<rfloor>; d = x - of_int fl
      in if d < 1 / 2 then fl
         else if 1 / 2 < d then fl + 1
         else if even fl then fl else fl + 1)"

text \<open>
  Rounding a real number to the nearest IEEE 754 double, ties to the even significand: a
  number of magnitude in \<open>[2^k, 2^(k+1))\<close> is a multiple of \<open>2^(k-52)\<close> when it is a
  double, so it is scaled by that unit, rounded to an integer (halves to even, as
  \<open>py_round\<close> does) and scaled back.  Overflow to infinity and the subnormal range, below
  \<open>2^(-1022)\<close>, are not modelled; neither is reached by a length times a fraction.
\<close>

definition round_to_double :: "real \<Rightarrow> real" where
  "round_to_double x =
     (if x = 0 then 0
      else (let e = \<lfloor>log 2 \<bar>x\<bar>\<rfloor> - 52
            in of_int (py_round (x / 2 powr of_int e)) * 2 powr of_int e))"

text \<open>
  The product \<open>n * x\<close> of a Python integer and a float: the integer is converted to a
  double, and the exact product of the two doubles is rounded to a double.
\<close>

definition float_mul :: "int \<Rightarrow> real \<Rightarrow> real" where
  "float_mul n x = round_to_double (round_to_double (of_int n) * x)"

text \<open>Python's \<open>int(x)\<close> on a float truncates towards zero.\<close>

definition py_int :: "real \<Rightarrow> int" where
  "py_int x = (if 0 \<le> x then \<lfloor>x\<rfloor> else \<lceil>x\<rceil>)"

text \<open>Applying a fallible function to every element, stopping at the first exception.\<close>

fun map_err :: "('a \<Rightarrow> py_error + 'b) \<Rightarrow> 'a list \<Rightarrow> py_error + 'b list" where
  "map_err f [] = Inr []"
| "map_err f (x # xs) =
     (case f x of
        Inl e \<Rightarrow> Inl e
      | Inr y \<Rightarrow> (case map_err f xs of Inl e \<Rightarrow> Inl e | Inr ys \<Rightarrow> Inr (y # ys)))"

section \<open>Cache sizing (generation\_utils.py)\<close>

text \<open>
  Modelled from the spec: \<open>find_multiple\<close> is imported from \<open>model.py\<close>, which is not
  part of the sources at hand.  The spec describes its use as "round the result up to the
  next multiple of \<open>multipleOf\<close>"; a value that already is a multiple is left alone.  The
  remainder by zero raises, as Python's \<open>%\<close> does.
\<close>

definition find_multiple :: "int \<Rightarrow> int \<Rightarrow> py_error + int" where
  "find_multiple n k =
     (if k = 0 then Inl ZeroDivisionError
      else if n mod k = 0 then Inr n
      else Inr (n + k - n mod k))"

text \<open>
  \<open>normalize_cache_length\<close>, lines 169--185.  \<open>max_cache_length\<close> is the value of the
  float that is passed.  The warning printed when an absolute length exceeds
  \<open>max_seq_length\<close> has no effect on the result and is left out.
\<close>

definition normalize_cache_length :: "real \<Rightarrow> int \<Rightarrow> int \<Rightarrow> py_error + int" where
  "normalize_cache_length max_cache_length max_seq_length multiple_of =
     (if 0 < max_cache_length \<and> max_cache_length \<le> 1 then
        (case find_multiple (py_round (float_mul max_seq_length max_cache_length)) multiple_of of
           Inl e \<Rightarrow> Inl e
         | Inr m \<Rightarrow> Inr (min m max_seq_length))
      else if of_int (py_int max_cache_length) \<noteq> max_cache_length then Inl AssertionError
      else
        (let l = py_int max_cache_length;
             l' = (if l > max_seq_length then max_seq_length else l)
         in case find_multiple l' multiple_of of
              Inl e \<Rightarrow> Inl e
            | Inr m \<Rightarrow> Inr (min m max_seq_length)))"

text \<open>
  The entries of \<open>cache_kwargs\<close> that \<open>setup_caches\<close> reads.  \<open>drop_amount\<close> is either
  a ratio (\<open>Inl\<close>) or, on a second call, already a per-layer list (\<open>Inr\<close>).
\<close>

record cache_kwargs =
  kw_max_cache_length :: "real list"
  kw_drop_amount :: "real + int list"
  kw_global_tokens :: int
  kw_cache_strategy :: string

text \<open>The entries as \<open>setup_caches\<close> leaves them, before they are handed to the model.\<close>

record layer_kwargs =
  layer_max_cache_length :: "int list"
  layer_drop_amount :: "int list"
  layer_global_tokens :: int
  layer_cache_strategy :: string

text \<open>
  \<open>setup_caches\<close>, lines 188--230, up to the call of \<open>model.setup_caches\<close> (the model
  and the tokenizer are external).  \<open>n_layer\<close> is \<open>model.config.n_layer\<close>.  The nested
  comprehension repeats each normalised length \<open>tile_size\<close> times in place; \<open>range\<close> of
  a negative number is empty, which \<open>nat\<close> gives too.  \<open>min\<close> of an empty list raises
  \<open>ValueError\<close>.
\<close>

definition setup_caches :: "int \<Rightarrow> int \<Rightarrow> cache_kwargs \<Rightarrow> py_error + layer_kwargs" where
  "setup_caches n_layer max_seq_length kw =
     (case map_err (\<lambda>l. normalize_cache_length l max_seq_length 8) (kw_max_cache_length kw) of
        Inl e \<Rightarrow> Inl e
      | Inr lens \<Rightarrow>
          if lens = [] then Inl ZeroDivisionError
          else if n_layer mod int (length lens) \<noteq> 0 then Inl AssertionError
          else
            (let tile_size = n_layer div int (length lens);
                 per_layer = concat (map (\<lambda>item. replicate (nat tile_size) item) lens);
                 drops = (case kw_drop_amount kw of
                            Inl ratio \<Rightarrow> map (\<lambda>l. max (py_int (float_mul l ratio)) 1) per_layer
                          | Inr ds \<Rightarrow> ds)
             in if per_layer = [] then Inl ValueError
                else if \<not> kw_global_tokens kw \<le> Min (set per_layer) then Inl AssertionError
                else Inr \<lparr> layer_max_cache_length = per_layer,
                           layer_drop_amount = drops,
                           layer_global_tokens = kw_global_tokens kw,
                           layer_cache_strategy = kw_cache_strategy kw \<rparr>))"

section \<open>Eviction policies (prompt\_compression.py)\<close>

text \<open>
  Tensors are nested lists.  The batch dimension has size one throughout (the caches are
  set up with \<open>max_batch_size = 1\<close>) and is left out: a key or value buffer of shape
  \<open>[1, H, N, D]\<close> is a list of \<open>H\<close> heads, each a list of \<open>N\<close> per-position entries; the
  attention weights of shape \<open>[1, H, Q, N]\<close> are a list of \<open>H\<close> heads, each a list of \<open>Q\<close>
  query rows over \<open>N\<close> key positions.  \<open>input_pos\<close> is the list of position values and
  \<open>input_pos.shape[0]\<close> its length.
\<close>

text \<open>\<open>list(range(a, b))\<close>.\<close>

definition py_range :: "int \<Rightarrow> int \<Rightarrow> int list" where
  "py_range a b = [a..b - 1]"

text \<open>
  The attributes a compressor is constructed with (\<open>head_specific\<close> and the keyword
  arguments that the policies read).
\<close>

record prompt_compressor =
  head_specific :: bool
  max_cache_length :: int
  global_tokens :: int
  recent_window :: int

text \<open>
  Indexing the position dimension with an index tensor, \<open>t[:, :, idxs]\<close>: a negative
  index counts from the end, an index outside \<open>[-n, n)\<close> raises \<open>IndexError\<close>.
\<close>

definition index_positions :: "'v list \<Rightarrow> int list \<Rightarrow> py_error + 'v list" where
  "index_positions xs idxs =
     (let n = int (length xs)
      in if \<forall>i\<in>set idxs. - n \<le> i \<and> i < n
         then Inr (map (\<lambda>i. xs ! nat (if i < 0 then i + n else i)) idxs)
         else Inl IndexError)"

text \<open>\<open>PromptCompressorRecentGlobal.__call__\<close>, lines 38--56.\<close>

definition recent_global_call ::
  "prompt_compressor \<Rightarrow> int list \<Rightarrow> 'v list list \<Rightarrow> 'v list list
     \<Rightarrow> py_error + (int list \<times> 'v list list \<times> 'v list list)" where
  "recent_global_call self input_pos k_val v_val =
     (let keep_idxs =
            py_range 0 (global_tokens self)
            @ py_range (int (length input_pos) - max_cache_length self + global_tokens self)
                       (int (length input_pos))
      in if int (length keep_idxs) \<noteq> max_cache_length self then Inl AssertionError
         else
           (case map_err (\<lambda>head. index_positions head keep_idxs) k_val of
              Inl e \<Rightarrow> Inl e
            | Inr k_val' \<Rightarrow>
                (case map_err (\<lambda>head. index_positions head keep_idxs) v_val of
                   Inl e \<Rightarrow> Inl e
                 | Inr v_val' \<Rightarrow> Inr (keep_idxs, k_val', v_val'))))"

subsection \<open>Top-k selection\<close>

text \<open>
  \<open>torch.topk(k, largest).indices\<close> along the position dimension is a library primitive
  whose choice among equal scores is not specified.  The policies therefore take the
  selection as a parameter \<open>topk :: bool \<Rightarrow> 'a list \<Rightarrow> nat \<Rightarrow> nat list\<close> (the flag is
  \<open>largest\<close>), and the properties below assume only its contract: for \<open>k\<close> within the
  length it returns \<open>k\<close> distinct valid indices, and no index left out has a strictly
  better score than one that was picked.
\<close>

definition topk_ok :: "bool \<Rightarrow> ('a::linorder) list \<Rightarrow> nat \<Rightarrow> nat list \<Rightarrow> bool" where
  "topk_ok largest xs k idxs \<longleftrightarrow>
     length idxs = k \<and> distinct idxs \<and> (\<forall>i\<in>set idxs. i < length xs)
     \<and> (\<forall>i\<in>set idxs. \<forall>j<length xs. j \<notin> set idxs \<longrightarrow>
           (if largest then xs ! j \<le> xs ! i else xs ! i \<le> xs ! j))"

definition topk_contract :: "(bool \<Rightarrow> ('a::linorder) list \<Rightarrow> nat \<Rightarrow> nat list) \<Rightarrow> bool" where
  "topk_contract topk \<longleftrightarrow>
     (\<forall>largest xs k. k \<le> length xs \<longrightarrow> topk_ok largest xs k (topk largest xs k))"

text \<open>
  One selection that meets the contract: sort the indices by score (stably) and take the
  first \<open>k\<close>, from the top end when \<open>largest\<close> is set.
\<close>

definition topk_sort :: "bool \<Rightarrow> ('a::linorder) list \<Rightarrow> nat \<Rightarrow> nat list" where
  "topk_sort largest xs k =
     (let by_score = sort_key (\<lambda>i. xs ! i) [0..<length xs]
      in take k (if largest then rev by_score else by_score))"

text \<open>
  The policies' use of it, \<open>scores.topk(max_cache_length, dim=-1, largest).indices
  .sort(dim=-1).values\<close>: a \<open>k\<close> outside \<open>[0, N]\<close> raises \<open>RuntimeError\<close>, and the picked
  indices are returned in ascending order.
\<close>

definition topk_sorted_indices ::
  "(bool \<Rightarrow> ('a::linorder) list \<Rightarrow> nat \<Rightarrow> nat list) \<Rightarrow> bool \<Rightarrow> int \<Rightarrow> 'a list
     \<Rightarrow> py_error + nat list" where
  "topk_sorted_indices topk largest k scores =
     (if k < 0 \<or> int (length scores) < k then Inl RuntimeError
      else Inr (sort (topk largest scores (nat k))))"

text \<open>
  \<open>t.gather(2, idxs)\<close> for one head: the entries at the given positions, in the order
  given; an index beyond the buffer raises \<open>RuntimeError\<close>.
\<close>

definition gather_positions :: "'v list \<Rightarrow> nat list \<Rightarrow> py_error + 'v list" where
  "gather_positions xs idxs =
     (if \<forall>i\<in>set idxs. i < length xs then Inr (map (\<lambda>i. xs ! i) idxs) else Inl RuntimeError)"

text \<open>
  The same over all heads.  \<open>gather\<close> produces one head per head of the index tensor and
  raises when the gathered tensor has fewer heads than that.
\<close>

definition gather_heads :: "'v list list \<Rightarrow> nat list list \<Rightarrow> py_error + 'v list list" where
  "gather_heads t idxs =
     (if length t < length idxs then Inl RuntimeError
      else map_err (\<lambda>(head, keep). gather_positions head keep) (zip t idxs))"

subsection \<open>SnapKV\<close>

text \<open>The hyperparameters fixed by \<open>PromptCompressorSnapKV.__init__\<close>.\<close>

definition kernel_size :: nat where
  "kernel_size = 5"

definition observation_len :: nat where
  "observation_len = 16"

text \<open>The slice \<open>xs[-n:]\<close>; for \<open>n = 0\<close> Python's \<open>-0\<close> is \<open>0\<close> and the slice is all of \<open>xs\<close>.\<close>

definition last_n :: "nat \<Rightarrow> 'a list \<Rightarrow> 'a list" where
  "last_n n xs = (if n = 0 then xs else drop (length xs - n) xs)"

text \<open>
  \<open>rows.mean(dim=2)\<close> for one head: the mean over the query rows, per key position.  The
  number of key positions is read off the first row.  With no row at all the source
  yields NaN, which the real-valued model does not represent; the properties below
  assume at least one query row.
\<close>

definition mean_rows :: "real list list \<Rightarrow> real list" where
  "mean_rows rows =
     map (\<lambda>p. sum_list (map (\<lambda>row. row ! p) rows) / real (length rows))
         [0..<(case rows of [] \<Rightarrow> 0 | row # _ \<Rightarrow> length row)]"

text \<open>
  \<open>AvgPool1d(kernel_size, stride=1, padding=kernel_size // 2, ceil_mode=False,
  count_include_pad=False)\<close> on one head: output position \<open>j\<close> averages the inputs at
  \<open>j - padding, \<dots>, j - padding + kernel_size - 1\<close> that exist (the subtraction on
  \<open>nat\<close> stops at position 0, where the padding begins), and divides by their
  number.  There are \<open>n + 2 * padding - kernel_size + 1\<close> outputs for \<open>n\<close> inputs.
\<close>

definition pool :: "real list \<Rightarrow> real list" where
  "pool xs =
     map (\<lambda>j. let window = [j - kernel_size div 2 ..<
                              min (j + kernel_size - kernel_size div 2) (length xs)]
               in sum_list (map (\<lambda>i. xs ! i) window) / real (length window))
         [0..<length xs + 2 * (kernel_size div 2) + 1 - kernel_size]"

text \<open>\<open>priority[:, :, -observation_len:] = 1.0\<close> for one head.\<close>

definition force_window :: "real list \<Rightarrow> real list" where
  "force_window xs =
     (if observation_len = 0 then replicate (length xs) 1
      else take (length xs - observation_len) xs
           @ replicate (min observation_len (length xs)) 1)"

text \<open>
  \<open>PromptCompressorSnapKV.__call__\<close>, lines 86--111.  The result is the keep indices per
  head, the compressed keys and values, and the retained attention history.
\<close>

definition snapkv_call ::
  "(bool \<Rightarrow> real list \<Rightarrow> nat \<Rightarrow> nat list) \<Rightarrow> prompt_compressor \<Rightarrow> int list
     \<Rightarrow> 'v list list \<Rightarrow> 'v list list \<Rightarrow> real list list list
     \<Rightarrow> py_error + (nat list list \<times> 'v list list \<times> 'v list list \<times> real list list)" where
  "snapkv_call topk self input_pos k_val v_val attn =
     (if \<not> head_specific self then Inl AssertionError
      else
        (let priority = map (\<lambda>rows. mean_rows (last_n observation_len rows)) attn;
             attn_history = priority;
             pooled = map pool priority
         in if map length pooled \<noteq> map length priority then Inl AssertionError
            else
              (case map_err (topk_sorted_indices topk True (max_cache_length self))
                            (map force_window pooled) of
                 Inl e \<Rightarrow> Inl e
               | Inr keep_idxs \<Rightarrow>
                   (case gather_heads attn_history keep_idxs of
                      Inl e \<Rightarrow> Inl e
                    | Inr attn_history' \<Rightarrow>
                        (case gather_heads k_val keep_idxs of
                           Inl e \<Rightarrow> Inl e
                         | Inr k_val_compressed \<Rightarrow>
                             (case gather_heads v_val keep_idxs of
                                Inl e \<Rightarrow> Inl e
                              | Inr v_val_compressed \<Rightarrow>
                                  Inr (keep_idxs, k_val_compressed, v_val_compressed,
                                       attn_history')))))))"

subsection \<open>L2\<close>

text \<open>\<open>torch.linalg.vector_norm(v, ord=2)\<close> of one key vector.\<close>

definition vector_norm :: "real list \<Rightarrow> real" where
  "vector_norm v = sqrt (sum_list (map (\<lambda>x. x * x) v))"

text \<open>
  The locality mask: a position value below \<open>global_tokens\<close> or at least
  \<open>input_pos.shape[0] - recent_window\<close>.
\<close>

definition locality_mask :: "prompt_compressor \<Rightarrow> int list \<Rightarrow> bool list" where
  "locality_mask self input_pos =
     map (\<lambda>p. p < global_tokens self \<or> int (length input_pos) - recent_window self \<le> p)
         input_pos"

text \<open>
  \<open>key_norm.masked_fill(mask, float("-inf"))\<close> for one head.  A score is a
  \<open>real option\<close> in which \<open>None\<close> is negative infinity: it is below every \<open>Some x\<close> in the
  order on options.  The mask of shape \<open>[1, 1, P]\<close> is broadcast over the heads; it has to
  have one entry per position, or a single entry that is then used for every position,
  and raises \<open>RuntimeError\<close> otherwise.
\<close>

definition masked_fill :: "real list \<Rightarrow> bool list \<Rightarrow> py_error + real option list" where
  "masked_fill norms locality =
     (if length locality = length norms
      then Inr (map (\<lambda>(x, m). if m then None else Some x) (zip norms locality))
      else if length locality = 1
      then Inr (map (\<lambda>x. if locality ! 0 then None else Some x) norms)
      else Inl RuntimeError)"

text \<open>\<open>PromptCompressorL2.__call__\<close>, lines 124--145.\<close>

definition l2_call ::
  "(bool \<Rightarrow> real option list \<Rightarrow> nat \<Rightarrow> nat list) \<Rightarrow> prompt_compressor \<Rightarrow> int list
     \<Rightarrow> real list list list \<Rightarrow> 'v list list
     \<Rightarrow> py_error + (nat list list \<times> real list list list \<times> 'v list list)" where
  "l2_call topk self input_pos k_val v_val =
     (let key_norm = map (map vector_norm) k_val;
          locality = locality_mask self input_pos
      in case map_err (\<lambda>norms. masked_fill norms locality) key_norm of
           Inl e \<Rightarrow> Inl e
         | Inr eviction_scores \<Rightarrow>
             (case map_err (topk_sorted_indices topk False (max_cache_length self))
                           eviction_scores of
                Inl e \<Rightarrow> Inl e
              | Inr keep_idxs \<Rightarrow>
                  (case gather_heads k_val keep_idxs of
                     Inl e \<Rightarrow> Inl e
                   | Inr k_val_compressed \<Rightarrow>
                       (case gather_heads v_val keep_idxs of
                          Inl e \<Rightarrow> Inl e
                        | Inr v_val_compressed \<Rightarrow>
                            Inr (keep_idxs, k_val_compressed, v_val_compressed)))))"

section \<open>Generation driver (generation\_utils.py)\<close>

text \<open>
  The transformer is an external collaborator.  It is modelled by the operations the
  driver uses, over an abstract model state \<open>'s\<close> (weights and caches), abstract logits
  \<open>'l\<close> and abstract probabilities \<open>'p\<close>: \<open>forward\<close> is \<open>model(x, input_pos, mask)\<close>, which
  updates the state and returns logits (the flag says whether a causal mask was passed);
  \<open>min_cache_length\<close> is \<open>model.min_cache_length()\<close>; \<open>softmax\<close> and \<open>argmax\<close> are the
  torch operations on the logits of the last position.  \<open>argmax\<close> returns an index into
  the vocabulary, hence a natural number.  Token ids are Python integers.
\<close>

record ('s, 'l, 'p) transformer =
  forward :: "'s \<Rightarrow> int list \<Rightarrow> int list \<Rightarrow> bool \<Rightarrow> 's \<times> 'l"
  min_cache_length :: "'s \<Rightarrow> int"
  softmax :: "'l \<Rightarrow> 'p"
  argmax :: "'p \<Rightarrow> nat"

text \<open>\<open>greedy\<close>, lines 93--99.\<close>

definition greedy :: "('s, 'l, 'p) transformer \<Rightarrow> 'l \<Rightarrow> int option \<Rightarrow> int \<times> 'p" where
  "greedy model logits next_token =
     (let probs = softmax model logits
      in (case next_token of None \<Rightarrow> int (argmax model probs) | Some t \<Rightarrow> t, probs))"

text \<open>\<open>prefill\<close>, lines 102--117.\<close>

definition prefill ::
  "('s, 'l, 'p) transformer \<Rightarrow> 's \<Rightarrow> int list \<Rightarrow> int list \<Rightarrow> int option \<Rightarrow> 's \<times> int \<times> 'p" where
  "prefill model s x input_pos next_token =
     (let (s', logits) = forward model s x input_pos True
      in (s', greedy model logits next_token))"

text \<open>\<open>decode_one_token\<close>, lines 120--130.\<close>

definition decode_one_token ::
  "('s, 'l, 'p) transformer \<Rightarrow> 's \<Rightarrow> int list \<Rightarrow> int list \<Rightarrow> int option
     \<Rightarrow> py_error + ('s \<times> int \<times> 'p)" where
  "decode_one_token model s x input_pos next_token =
     (if length input_pos \<noteq> 1 then Inl AssertionError
      else (let (s', logits) = forward model s x input_pos False
            in Inr (s', greedy model logits next_token)))"

text \<open>
  The loop of \<open>decode_n_tokens\<close>, lines 143--160: \<open>remaining\<close> counts the iterations that
  are left and \<open>i\<close> is the loop index.  \<open>terminator_ids and next_token in terminator_ids\<close>
  is false for \<open>None\<close> and for the empty list.
\<close>

fun decode_loop ::
  "('s, 'l, 'p) transformer \<Rightarrow> int list option \<Rightarrow> int list option \<Rightarrow> nat \<Rightarrow> nat
     \<Rightarrow> 's \<Rightarrow> int \<Rightarrow> int list \<Rightarrow> int list \<Rightarrow> 'p list
     \<Rightarrow> py_error + ('s \<times> int list \<times> 'p list)" where
  "decode_loop model terminator_ids prefix 0 i s cur_token input_pos new_tokens new_probs =
     Inr (s, new_tokens, new_probs)"
| "decode_loop model terminator_ids prefix (Suc remaining) i s cur_token input_pos
       new_tokens new_probs =
     (let teacher_force = (case prefix of None \<Rightarrow> False | Some p \<Rightarrow> i < length p);
          next_token = (case prefix of
                          None \<Rightarrow> None
                        | Some p \<Rightarrow> if teacher_force then Some (p ! i) else None)
      in case decode_one_token model s [cur_token] input_pos next_token of
           Inl e \<Rightarrow> Inl e
         | Inr (s', next_token, next_prob) \<Rightarrow>
             if (case terminator_ids of None \<Rightarrow> False | Some ts \<Rightarrow> next_token \<in> set ts)
                \<and> \<not> teacher_force
             then Inr (s', new_tokens @ [next_token], new_probs @ [next_prob])
             else decode_loop model terminator_ids prefix remaining (Suc i) s' next_token
                    (map (\<lambda>p. p + 1) input_pos)
                    (new_tokens @ [next_token]) (new_probs @ [next_prob]))"

text \<open>\<open>decode_n_tokens\<close>, lines 133--162; \<open>range\<close> of a negative number is empty.\<close>

definition decode_n_tokens ::
  "('s, 'l, 'p) transformer \<Rightarrow> 's \<Rightarrow> int \<Rightarrow> int list \<Rightarrow> int \<Rightarrow> int list option
     \<Rightarrow> int list option \<Rightarrow> py_error + ('s \<times> int list \<times> 'p list)" where
  "decode_n_tokens model s cur_token input_pos num_new_tokens terminator_ids prefix =
     decode_loop model terminator_ids prefix (nat num_new_tokens) 0 s cur_token input_pos [] []"

text \<open>
  Slices of a one-dimensional tensor of length \<open>n\<close>: a negative bound counts from the end,
  and every bound is clamped to \<open>[0, n]\<close>.  \<open>py_take xs k\<close> is \<open>xs[:k]\<close> and \<open>py_drop xs k\<close>
  is \<open>xs[k:]\<close>.
\<close>

definition slice_index :: "nat \<Rightarrow> int \<Rightarrow> nat" where
  "slice_index n i = (if i < 0 then nat (int n + i) else min (nat i) n)"

definition py_take :: "'a list \<Rightarrow> int \<Rightarrow> 'a list" where
  "py_take xs k = take (slice_index (length xs) k) xs"

definition py_drop :: "'a list \<Rightarrow> int \<Rightarrow> 'a list" where
  "py_drop xs k = drop (slice_index (length xs) k) xs"

text \<open>
  \<open>seq[a:b] = vals\<close> on a tensor: the values must have the length of the slice, or be a
  single value that is broadcast over it; anything else raises \<open>RuntimeError\<close>.
\<close>

definition slice_assign :: "int list \<Rightarrow> int \<Rightarrow> int \<Rightarrow> int list \<Rightarrow> py_error + int list" where
  "slice_assign seq a b vals =
     (let lo = slice_index (length seq) a;
          hi = max lo (slice_index (length seq) b)
      in if length vals = hi - lo then Inr (take lo seq @ vals @ drop hi seq)
         else if length vals = 1
         then Inr (take lo seq @ replicate (hi - lo) (vals ! 0) @ drop hi seq)
         else Inl RuntimeError)"

text \<open>\<open>seq[i] = v\<close>: a negative index counts from the end, an index out of range raises.\<close>

definition index_assign :: "int list \<Rightarrow> int \<Rightarrow> int \<Rightarrow> py_error + int list" where
  "index_assign seq i v =
     (let n = int (length seq); j = (if i < 0 then i + n else i)
      in if 0 \<le> j \<and> j < n then Inr (seq[nat j := v]) else Inl IndexError)"

text \<open>
  The long-prompt split of \<open>generate\<close>, lines 259--272, as a function of
  \<open>model.min_cache_length()\<close>, \<open>feed_long_prompts\<close>, the prompt and \<open>max_new_tokens\<close>.  It
  returns the prompt to prefill, the prefix (\<open>None\<close> when the prompt is not split), the new
  \<open>max_new_tokens\<close> and the new \<open>prompt_length\<close>.
\<close>

definition long_prompt_split ::
  "int \<Rightarrow> bool \<Rightarrow> int list \<Rightarrow> int \<Rightarrow> int list \<times> int list option \<times> int \<times> int" where
  "long_prompt_split min_cache_len feed_long_prompts prompt max_new_tokens =
     (let prompt_length = int (length prompt);
          max_prompt_len = min_cache_len - 1
      in if (feed_long_prompts \<and> prompt_length > max_prompt_len)
            \<or> prompt_length = min_cache_len
         then (let prefix = py_drop prompt max_prompt_len
               in (py_take prompt max_prompt_len, Some prefix,
                   max_new_tokens + int (length prefix), max_prompt_len))
         else (prompt, None, max_new_tokens, prompt_length))"

text \<open>
  \<open>generate\<close>, lines 242--309.  The sentinel that fills the output buffer is \<open>-1\<close>.
  \<open>torch.full\<close> raises on a negative size and \<open>torch.arange(0, n)\<close> on a negative \<open>n\<close>;
  \<open>prefix[0]\<close> raises \<open>IndexError\<close> on an empty prefix.  The result is the final model
  state, the returned sequence and the list of probabilities.
\<close>

definition generate ::
  "('s, 'l, 'p) transformer \<Rightarrow> 's \<Rightarrow> int list \<Rightarrow> int \<Rightarrow> int list option \<Rightarrow> bool
     \<Rightarrow> py_error + ('s \<times> int list \<times> 'p list)" where
  "generate model s prompt max_new_tokens terminator_ids feed_long_prompts =
     (case long_prompt_split (min_cache_length model s) feed_long_prompts prompt max_new_tokens of
        (prompt, prefix, max_new_tokens, prompt_length) \<Rightarrow>
          if prompt_length + max_new_tokens < 0 then Inl RuntimeError
          else
            (case slice_assign (replicate (nat (prompt_length + max_new_tokens)) (- 1))
                    0 prompt_length prompt of
               Inl e \<Rightarrow> Inl e
             | Inr seq \<Rightarrow>
                 if prompt_length < 0 then Inl RuntimeError
                 else
                   (case (case prefix of
                            None \<Rightarrow> Inr None
                          | Some p \<Rightarrow> if p = [] then Inl IndexError else Inr (Some (p ! 0))) of
                      Inl e \<Rightarrow> Inl e
                    | Inr first \<Rightarrow>
                        (case prefill model s prompt (py_range 0 prompt_length) first of
                           (s1, next_token, next_tok_probs) \<Rightarrow>
                             (case index_assign seq prompt_length next_token of
                                Inl e \<Rightarrow> Inl e
                              | Inr seq \<Rightarrow>
                                  (case decode_n_tokens model s1 next_token [prompt_length]
                                          (max_new_tokens - 1) terminator_ids
                                          (map_option (\<lambda>p. py_drop p 1) prefix) of
                                     Inl e \<Rightarrow> Inl e
                                   | Inr (s2, generated_tokens, generated_tok_probs) \<Rightarrow>
                                       (case (if generated_tokens \<noteq> []
                                              then slice_assign seq (prompt_length + 1)
                                                     (prompt_length + 1
                                                      + int (length generated_tokens))
                                                     generated_tokens
                                              else Inr seq) of
                                          Inl e \<Rightarrow> Inl e
                                        | Inr seq \<Rightarrow>
                                            Inr (s2,
                                                 (if - 1 \<in> set seq
                                                  then takeWhile (\<lambda>t. t \<noteq> - 1) seq
                                                  else seq),
                                                 next_tok_probs # generated_tok_probs))))))))"

text \<open>
  A toy transformer for the examples: its state counts the forward calls, the logits of
  a call are that count, and the greedy token is read off a fixed script (a default token
  once the script is exhausted).
\<close>

definition scripted_model :: "int \<Rightarrow> nat list \<Rightarrow> (nat, nat, nat) transformer" where
  "scripted_model cache_len script =
     \<lparr> forward = (\<lambda>s x input_pos causal. (Suc s, s)),
       min_cache_length = (\<lambda>s. cache_len),
       softmax = (\<lambda>l. l),
       argmax = (\<lambda>p. if p < length script then script ! p else 7) \<rparr>"

text \<open>
  The doubles nearest to 0.33 and to 0.1, that is the values of the Python literals
  \<open>0.33\<close> and \<open>0.1\<close>.
\<close>

definition double_of_033 :: real where
  "double_of_033 = 5944751508129055 / 2 ^ 54"

definition double_of_01 :: real where
  "double_of_01 = 3602879701896397 / 2 ^ 55"

text \<open>A two-group configuration used in the examples below.\<close>

definition example_kwargs :: cache_kwargs where
  "example_kwargs = \<lparr> kw_max_cache_length = [64, 128], kw_drop_amount = Inl (1 / 2),
                       kw_global_tokens = 4, kw_cache_strategy = ''recent_global'' \<rparr>"

text \<open>Inputs for the RecentGlobal examples: one head, entries labelled by position.\<close>

definition example_recent_global :: prompt_compressor where
  "example_recent_global =
     \<lparr> head_specific = False, max_cache_length = 16, global_tokens = 4, recent_window = 0 \<rparr>"

definition example_positions :: "nat \<Rightarrow> int list" where
  "example_positions n = map int [0..<n]"

definition example_buffer :: "nat \<Rightarrow> nat \<Rightarrow> nat list list" where
  "example_buffer base n = [map (\<lambda>i. base + i) [0..<n]]"

text \<open>Inputs for the L2 example: one head with one-dimensional keys.\<close>

definition example_l2 :: prompt_compressor where
  "example_l2 =
     \<lparr> head_specific = True, max_cache_length = 4, global_tokens = 1, recent_window = 2 \<rparr>"

definition example_keys :: "real list list list" where
  "example_keys = [[[5], [3], [1], [4], [2], [6]]]"

text \<open>Inputs for the SnapKV examples: one head, one query row over 18 key positions.\<close>

definition example_snapkv :: "int \<Rightarrow> prompt_compressor" where
  "example_snapkv c =
     \<lparr> head_specific = True, max_cache_length = c, global_tokens = 0, recent_window = 0 \<rparr>"

definition example_attn :: "real list list list" where
  "example_attn = [[[1 / 4, 3 / 4, 0, 0, 0, 0, 0, 0, 0, 0, 0, 0, 0, 0, 0, 0, 0, 0]]]"


text \<open>Two scripted models: the fifth greedy token is the terminator 50256.\<close>

definition example_model :: "(nat, nat, nat) transformer" where
  "example_model = scripted_model 16 [10, 11, 12, 13, 50256, 14, 15]"

definition example_model_small :: "(nat, nat, nat) transformer" where
  "example_model_small = scripted_model 3 [10, 11, 12, 13, 50256, 14, 15]"

section \<open>Properties of cache sizing\<close>

lemma find_multiple_next:
  assumes "0 < k"
  shows "\<exists>m. find_multiple n k = Inr m \<and> k dvd m \<and> n \<le> m \<and> m < n + k"
proof (cases "n mod k = 0")
  case True
  with assms show ?thesis by (auto simp: find_multiple_def)
next
  case False
  have "k dvd (n - n mod k)" by (rule dvd_minus_mod)
  then have d: "k dvd (n + k - n mod k)"
    by (metis add_diff_eq diff_add_cancel dvd_add_triv_right_iff add.commute diff_diff_eq2)
  have b: "0 \<le> n mod k \<and> n mod k < k" using assms by simp
  with False have "0 < n mod k \<and> n mod k < k" by linarith
  with d False assms show ?thesis by (simp add: find_multiple_def)
qed

lemma round_to_double_eval:
  assumes "2 ^ k \<le> \<bar>x\<bar>" and "\<bar>x\<bar> < 2 ^ (k + 1)" and "k \<le> 52"
  shows "round_to_double x = of_int (py_round (x * 2 ^ (52 - k))) / 2 ^ (52 - k)"
proof -
  from assms(1) zero_less_power [of "2::real" k] have pos: "0 < \<bar>x\<bar>" by linarith
  have "\<lfloor>log 2 \<bar>x\<bar>\<rfloor> = int k"
    using assms(1,2) pos by (simp add: floor_log_eq_powr_iff powr_realpow powr_add)
  then have e: "\<lfloor>log 2 \<bar>x\<bar>\<rfloor> - 52 = - int (52 - k)" using assms(3) by simp
  have p: "2 powr (- real (52 - k)) = 1 / (2::real) ^ (52 - k)"
    by (simp add: powr_minus powr_realpow divide_simps)
  from pos have "x \<noteq> 0" by auto
  then show ?thesis
    by (simp add: round_to_double_def Let_def e p)
qed

lemma round_to_double_eval_small:
  assumes "1 \<le> \<bar>x\<bar> * 2 ^ j" and "\<bar>x\<bar> * 2 ^ j < 2"
  shows "round_to_double x = of_int (py_round (x * 2 ^ (52 + j))) / 2 ^ (52 + j)"
proof -
  have p2: "(0::real) < 2 ^ j" by simp
  from assms(1) p2 have pos: "0 < \<bar>x\<bar>"
    by (metis abs_ge_zero less_eq_real_def mult_zero_left not_one_le_zero)
  have lo: "2 powr (- real j) \<le> \<bar>x\<bar>"
    using assms(1) by (simp add: powr_minus powr_realpow field_simps)
  have "2 powr (- real j + 1) = 2 / (2::real) ^ j"
    by (simp add: powr_diff powr_realpow)
  moreover from assms(2) have "\<bar>x\<bar> < 2 / 2 ^ j" by (simp add: field_simps)
  ultimately have hi: "\<bar>x\<bar> < 2 powr (- real j + 1)" by simp
  have "\<lfloor>log 2 \<bar>x\<bar>\<rfloor> = - int j"
    using lo hi pos by (simp add: floor_log_eq_powr_iff)
  define n where "n = 52 + j"
  have e: "\<lfloor>log 2 \<bar>x\<bar>\<rfloor> - 52 = - int n"
    using \<open>\<lfloor>log 2 \<bar>x\<bar>\<rfloor> = - int j\<close> by (simp add: n_def)
  have p: "2 powr (- real n) = 1 / (2::real) ^ n"
    by (simp add: powr_minus powr_realpow divide_simps)
  from pos have "x \<noteq> 0" by auto
  then have "round_to_double x = of_int (py_round (x * 2 ^ n)) / 2 ^ n"
    by (simp add: round_to_double_def Let_def e p)
  then show ?thesis unfolding n_def .
qed

text \<open>
  Claim C4.  For a fractional specification \<open>0 < f \<le> 1\<close> and a positive \<open>multiple_of\<close>
  (8 by default), \<open>normalize_cache_length\<close> returns \<open>round(max_seq_length * f)\<close>, the
  product being the float product and the rounding Python's, rounded up to the next
  multiple of \<open>multiple_of\<close> (the least multiple not below it) and then clamped to
  \<open>max_seq_length\<close>.  Hence the result never exceeds \<open>max_seq_length\<close> and is divisible by
  \<open>multiple_of\<close> unless the clamp made it equal to \<open>max_seq_length\<close>.
\<close>

theorem normalize_cache_length_fraction:
  assumes "0 < f" and "f \<le> 1" and "0 < multiple_of"
  shows "\<exists>m. find_multiple (py_round (float_mul max_seq_length f)) multiple_of = Inr m
            \<and> multiple_of dvd m
            \<and> py_round (float_mul max_seq_length f) \<le> m
            \<and> m < py_round (float_mul max_seq_length f) + multiple_of
            \<and> normalize_cache_length f max_seq_length multiple_of = Inr (min m max_seq_length)
            \<and> min m max_seq_length \<le> max_seq_length
            \<and> (multiple_of dvd min m max_seq_length \<or> min m max_seq_length = max_seq_length)"
proof -
  from find_multiple_next [OF assms(3)] obtain m where
    m: "find_multiple (py_round (float_mul max_seq_length f)) multiple_of = Inr m"
       "multiple_of dvd m" "py_round (float_mul max_seq_length f) \<le> m"
       "m < py_round (float_mul max_seq_length f) + multiple_of"
    by blast
  have "normalize_cache_length f max_seq_length multiple_of = Inr (min m max_seq_length)"
    using assms(1,2) m(1) by (simp add: normalize_cache_length_def)
  moreover have "multiple_of dvd min m max_seq_length \<or> min m max_seq_length = max_seq_length"
    using m(2) by (auto simp: min_def)
  ultimately show ?thesis using m by auto
qed

lemma float_mul_examples:
  "float_mul 70 (1 / 8) = 35 / 4"
  "float_mul 68 (1 / 8) = 17 / 2"
  "float_mul 100 double_of_033 = 33"
  "float_mul 5 double_of_01 = 1 / 2"
  "float_mul 64 (1 / 2) = 32"
  "float_mul 128 (1 / 2) = 64"
proof -
  have ints: "round_to_double 70 = 70" "round_to_double 68 = 68" "round_to_double 100 = 100"
      "round_to_double 5 = 5" "round_to_double 64 = 64" "round_to_double 128 = 128"
    by (simp_all add: py_round_def round_to_double_eval [where k = 6]
        round_to_double_eval [where k = 7] round_to_double_eval [where k = 2])
  show "float_mul 70 (1 / 8) = 35 / 4" "float_mul 68 (1 / 8) = 17 / 2"
    by (simp_all add: float_mul_def ints py_round_def round_to_double_eval [where k = 3])
  show "float_mul 100 double_of_033 = 33"
    by (simp add: float_mul_def ints double_of_033_def py_round_def
        round_to_double_eval [where k = 5])
  show "float_mul 5 double_of_01 = 1 / 2"
    by (simp add: float_mul_def ints double_of_01_def py_round_def
        round_to_double_eval_small [where j = 1])
  show "float_mul 64 (1 / 2) = 32"
    by (simp add: float_mul_def ints py_round_def round_to_double_eval [where k = 5])
  show "float_mul 128 (1 / 2) = 64"
    by (simp add: float_mul_def ints py_round_def round_to_double_eval [where k = 6])
qed

text \<open>
  Examples in which the rounding decides.  70 times 0.125 is 8.75, which rounds up to 9
  and so to the multiple 16, where truncation would give 8.  68 times 0.125 is 8.5,
  which rounds to the even 8.  The spec's example: the double nearest 0.33 times 100 is
  33.000000000000001554 exactly and the double 33.0 as a float product, which gives 33
  and then 40.  The double nearest 0.1 times 5 is the double 0.5, although the exact
  product lies above one half: it rounds to 0, not to 1.
\<close>

theorem normalize_cache_length_fraction_witness:
  "(0::real) < 1 / 8 \<and> (1 / 8 :: real) \<le> 1 \<and> (0::int) < 8
   \<and> py_round (float_mul 70 (1 / 8)) = 9
   \<and> find_multiple 9 8 = Inr 16
   \<and> normalize_cache_length (1 / 8) 70 8 = Inr 16
   \<and> py_round (float_mul 68 (1 / 8)) = 8
   \<and> normalize_cache_length (1 / 8) 68 8 = Inr 8
   \<and> py_round (float_mul 100 double_of_033) = 33
   \<and> normalize_cache_length double_of_033 100 8 = Inr 40
   \<and> py_round (float_mul 5 double_of_01) = 0
   \<and> normalize_cache_length double_of_01 5 8 = Inr 0"
proof -
  have r: "py_round (float_mul 70 (1 / 8)) = 9" "py_round (float_mul 68 (1 / 8)) = 8"
      "py_round (float_mul 100 double_of_033) = 33" "py_round (float_mul 5 double_of_01) = 0"
    by (simp_all add: float_mul_examples py_round_def)
  have fm: "find_multiple 9 8 = Inr 16" by (simp add: find_multiple_def)
  from normalize_cache_length_fraction [of "1 / 8" 8 70]
  have a: "normalize_cache_length (1 / 8) 70 8 = Inr 16"
    by (simp add: r fm)
  have b: "normalize_cache_length (1 / 8) 68 8 = Inr 8"
      "normalize_cache_length double_of_033 100 8 = Inr 40"
      "normalize_cache_length double_of_01 5 8 = Inr 0"
  proof -
    have "(0::real) < double_of_033 \<and> double_of_033 \<le> 1"
      and "(0::real) < double_of_01 \<and> double_of_01 \<le> 1"
      by (simp_all add: double_of_033_def double_of_01_def)
    then show "normalize_cache_length (1 / 8) 68 8 = Inr 8"
      "normalize_cache_length double_of_033 100 8 = Inr 40"
      "normalize_cache_length double_of_01 5 8 = Inr 0"
      by (simp_all add: normalize_cache_length_def r find_multiple_def)
  qed
  from r fm a b show ?thesis by simp
qed

lemma map_err_Inr:
  "map_err f xs = Inr ys \<Longrightarrow> length ys = length xs \<and> (\<forall>i<length xs. f (xs ! i) = Inr (ys ! i))"
proof (induction xs arbitrary: ys)
  case Nil
  then show ?case by simp
next
  case (Cons x xs)
  from Cons.prems obtain y ys' where y: "f x = Inr y" "map_err f xs = Inr ys'" "ys = y # ys'"
    by (auto split: sum.splits)
  from Cons.IH [OF y(2)] y(1,3) show ?case
    by (auto simp: nth_Cons split: nat.splits)
qed

lemma map_err_Inl:
  "map_err f xs = Inl e \<Longrightarrow> \<exists>x\<in>set xs. f x = Inl e"
  by (induction xs) (auto split: sum.splits)

lemma find_multiple_8: "find_multiple n 8 \<noteq> Inl e"
  by (simp add: find_multiple_def)

lemma normalize_cache_length_8_error:
  "normalize_cache_length l s 8 = Inl e \<Longrightarrow> e = AssertionError"
  by (auto simp: normalize_cache_length_def Let_def find_multiple_8 split: if_splits sum.splits)

lemma length_concat_replicate:
  "length (concat (map (\<lambda>item. replicate t item) xs)) = t * length xs"
  by (induction xs) simp_all

lemma nth_concat_replicate:
  "i < t * length xs \<Longrightarrow> concat (map (\<lambda>item. replicate t item) xs) ! i = xs ! (i div t)"
proof (induction xs arbitrary: i)
  case Nil
  then show ?case by simp
next
  case (Cons x xs)
  show ?case
  proof (cases "i < t")
    case True
    then show ?thesis by (simp add: nth_append)
  next
    case False
    then have "t \<le> i" by simp
    with Cons.prems have lt: "i - t < t * length xs" by simp
    from False Cons.prems have tpos: "0 < t" by (cases t) simp_all
    from \<open>t \<le> i\<close> tpos have "i div t = Suc ((i - t) div t)"
      by (simp add: le_div_geq)
    with Cons.IH [OF lt] False show ?thesis by (simp add: nth_append)
  qed
qed

text \<open>
  Claim C5.  \<open>setup_caches\<close> fails with an assertion when the layer count is not evenly
  divisible by the number of groups.  When it returns, the per-layer capacities are the
  normalised group values, each repeated \<open>n_layer / len(groups)\<close> times consecutively in
  group order: layer \<open>i\<close> gets the value of group \<open>i div tile_size\<close> (contiguous blocks,
  not round-robin), and there is one capacity per layer.
\<close>

theorem setup_caches_contiguous_blocks:
  "(kw_max_cache_length kw \<noteq> [] \<and> n_layer mod int (length (kw_max_cache_length kw)) \<noteq> 0
      \<longrightarrow> setup_caches n_layer max_seq_length kw = Inl AssertionError)
   \<and> (\<forall>r. setup_caches n_layer max_seq_length kw = Inr r \<longrightarrow>
         (\<exists>lens tile_size.
            map_err (\<lambda>l. normalize_cache_length l max_seq_length 8) (kw_max_cache_length kw) = Inr lens
          \<and> length lens = length (kw_max_cache_length kw)
          \<and> int tile_size * int (length lens) = n_layer
          \<and> layer_max_cache_length r = concat (map (\<lambda>item. replicate tile_size item) lens)
          \<and> int (length (layer_max_cache_length r)) = n_layer
          \<and> (\<forall>i<length (layer_max_cache_length r).
                layer_max_cache_length r ! i = lens ! (i div tile_size))))"
proof (intro conjI impI allI)
  assume a: "kw_max_cache_length kw \<noteq> [] \<and> n_layer mod int (length (kw_max_cache_length kw)) \<noteq> 0"
  show "setup_caches n_layer max_seq_length kw = Inl AssertionError"
  proof (cases "map_err (\<lambda>l. normalize_cache_length l max_seq_length 8) (kw_max_cache_length kw)")
    case (Inl e)
    from map_err_Inl [OF Inl] normalize_cache_length_8_error have "e = AssertionError" by blast
    with Inl show ?thesis by (simp add: setup_caches_def)
  next
    case (Inr lens)
    from map_err_Inr [OF Inr] have "length lens = length (kw_max_cache_length kw)" by simp
    with a Inr show ?thesis by (auto simp: setup_caches_def)
  qed
next
  fix r
  assume ok: "setup_caches n_layer max_seq_length kw = Inr r"
  then obtain lens where
    lens: "map_err (\<lambda>l. normalize_cache_length l max_seq_length 8) (kw_max_cache_length kw) = Inr lens"
    by (auto simp: setup_caches_def split: sum.splits)
  define t where "t = nat (n_layer div int (length lens))"
  from ok lens have ne: "lens \<noteq> []" and dv: "n_layer mod int (length lens) = 0"
    and pl: "concat (map (\<lambda>item. replicate t item) lens) \<noteq> []"
    and r: "layer_max_cache_length r = concat (map (\<lambda>item. replicate t item) lens)"
    by (auto simp: setup_caches_def Let_def t_def split: if_splits)
  from pl have "t \<noteq> 0" by (cases t) simp_all
  then have pos: "0 < n_layer div int (length lens)" by (simp add: t_def)
  from dv have "n_layer = (n_layer div int (length lens)) * int (length lens)" by auto
  with pos have tl: "int t * int (length lens) = n_layer" by (simp add: t_def)
  have len: "length (layer_max_cache_length r) = t * length lens"
    by (simp add: r length_concat_replicate)
  then have len': "int (length (layer_max_cache_length r)) = n_layer" using tl by simp
  have nth: "\<forall>i<length (layer_max_cache_length r). layer_max_cache_length r ! i = lens ! (i div t)"
    using len by (simp add: r nth_concat_replicate)
  from map_err_Inr [OF lens] have "length lens = length (kw_max_cache_length kw)" by simp
  with lens tl r len' nth
  show "\<exists>lens tile_size.
            map_err (\<lambda>l. normalize_cache_length l max_seq_length 8) (kw_max_cache_length kw) = Inr lens
          \<and> length lens = length (kw_max_cache_length kw)
          \<and> int tile_size * int (length lens) = n_layer
          \<and> layer_max_cache_length r = concat (map (\<lambda>item. replicate tile_size item) lens)
          \<and> int (length (layer_max_cache_length r)) = n_layer
          \<and> (\<forall>i<length (layer_max_cache_length r).
                layer_max_cache_length r ! i = lens ! (i div tile_size))"
    by blast
qed


lemma example_setup_8:
  "setup_caches 8 2048 example_kwargs =
     Inr \<lparr> layer_max_cache_length = [64, 64, 64, 64, 128, 128, 128, 128],
           layer_drop_amount = [32, 32, 32, 32, 64, 64, 64, 64],
           layer_global_tokens = 4, layer_cache_strategy = ''recent_global'' \<rparr>"
  by (simp add: setup_caches_def example_kwargs_def normalize_cache_length_def find_multiple_def
      py_int_def Let_def numeral_eq_Suc float_mul_examples)

text \<open>
  The spec's example: groups \<open>[64, 128]\<close> over 8 layers give four layers of 64 followed by
  four layers of 128; over 7 layers the set-up fails.
\<close>

theorem setup_caches_contiguous_blocks_witness:
  "kw_max_cache_length example_kwargs \<noteq> []
   \<and> (7::int) mod int (length (kw_max_cache_length example_kwargs)) \<noteq> 0
   \<and> setup_caches 7 2048 example_kwargs = Inl AssertionError
   \<and> (\<exists>r. setup_caches 8 2048 example_kwargs = Inr r
          \<and> layer_max_cache_length r = [64, 64, 64, 64, 128, 128, 128, 128]
          \<and> (\<forall>i<8. layer_max_cache_length r ! i = [64, 128] ! (i div 4)))"
proof -
  have ne: "kw_max_cache_length example_kwargs \<noteq> []"
    and md: "(7::int) mod int (length (kw_max_cache_length example_kwargs)) \<noteq> 0"
    by (simp_all add: example_kwargs_def)
  from setup_caches_contiguous_blocks [of example_kwargs 7 2048] ne md
  have fl: "setup_caches 7 2048 example_kwargs = Inl AssertionError" by blast
  have lens: "map_err (\<lambda>l. normalize_cache_length l 2048 8) (kw_max_cache_length example_kwargs)
                = Inr [64, 128]"
    by (simp add: example_kwargs_def normalize_cache_length_def find_multiple_def py_int_def)
  from setup_caches_contiguous_blocks [of example_kwargs 8 2048] example_setup_8 lens
  obtain tile_size where
    t: "int tile_size * int (length [64::int, 128]) = 8"
       "\<forall>i<length [64, 64, 64, 64, 128, 128, 128, 128 :: int].
           [64, 64, 64, 64, 128, 128, 128, 128 :: int] ! i = [64, 128] ! (i div tile_size)"
    by auto
  from t(1) have "tile_size = 4" by simp
  with t(2) have "\<forall>i<8. [64, 64, 64, 64, 128, 128, 128, 128 :: int] ! i = [64, 128] ! (i div 4)"
    by simp
  with ne md fl example_setup_8 show ?thesis by simp
qed

section \<open>Properties of the RecentGlobal policy\<close>

lemma map_err_all_Inr:
  "(\<forall>x\<in>set xs. f x = Inr (g x)) \<Longrightarrow> map_err f xs = Inr (map g xs)"
  by (induction xs) simp_all

lemma length_py_range: "int (length (py_range a b)) = max 0 (b - a)"
  by (simp add: py_range_def)

lemma set_py_range: "set (py_range a b) = {a..b - 1}"
  by (simp add: py_range_def)

lemma index_positions_nonneg:
  assumes "\<forall>i\<in>set idxs. 0 \<le> i \<and> i < int (length xs)"
  shows "index_positions xs idxs = Inr (map (\<lambda>i. xs ! nat i) idxs)"
  using assms by (auto simp: index_positions_def Let_def)

lemma recent_global_call_value:
  assumes "0 \<le> global_tokens self"
    and "global_tokens self \<le> max_cache_length self"
    and "max_cache_length self \<le> int (length input_pos)"
    and "\<forall>head\<in>set k_val. length input_pos \<le> length head"
    and "\<forall>head\<in>set v_val. length input_pos \<le> length head"
  defines "keep \<equiv> [0..global_tokens self - 1]
             @ [int (length input_pos) - max_cache_length self + global_tokens self
                ..int (length input_pos) - 1]"
  shows "recent_global_call self input_pos k_val v_val =
           Inr (keep, map (\<lambda>head. map (\<lambda>i. head ! nat i) keep) k_val,
                      map (\<lambda>head. map (\<lambda>i. head ! nat i) keep) v_val)"
    and "int (length keep) = max_cache_length self"
    and "\<forall>i\<in>set keep. 0 \<le> i \<and> i < int (length input_pos)"
proof -
  show len: "int (length keep) = max_cache_length self"
    using assms(1,2) by (simp add: keep_def)
  show rng: "\<forall>i\<in>set keep. 0 \<le> i \<and> i < int (length input_pos)"
    using assms(1-3) by (auto simp: keep_def)
  have idx: "index_positions head keep = Inr (map (\<lambda>i. head ! nat i) keep)"
    if "length input_pos \<le> length head" for head :: "'a list"
    using rng that by (intro index_positions_nonneg) auto
  have k: "map_err (\<lambda>head. index_positions head keep) k_val
             = Inr (map (\<lambda>head. map (\<lambda>i. head ! nat i) keep) k_val)"
    using assms(4) idx by (intro map_err_all_Inr) simp
  have v: "map_err (\<lambda>head. index_positions head keep) v_val
             = Inr (map (\<lambda>head. map (\<lambda>i. head ! nat i) keep) v_val)"
    using assms(5) idx by (intro map_err_all_Inr) simp
  show "recent_global_call self input_pos k_val v_val =
      Inr (keep, map (\<lambda>head. map (\<lambda>i. head ! nat i) keep) k_val,
                 map (\<lambda>head. map (\<lambda>i. head ! nat i) keep) v_val)"
    using len k v
    by (simp add: recent_global_call_def Let_def py_range_def keep_def [symmetric])
qed

text \<open>
  Claim C1.  For a span of length \<open>n\<close>, \<open>global_tokens = g\<close> and
  \<open>max_cache_length = c\<close> with \<open>0 \<le> g \<le> c \<le> n\<close> (and buffers that cover the span), the
  RecentGlobal policy returns the keep indices \<open>0, \<dots>, g - 1\<close> followed by
  \<open>n - c + g, \<dots>, n - 1\<close>: exactly \<open>c\<close> indices in strictly ascending order, and the
  returned key and value buffers are the input buffers read at those indices, head by head.
\<close>

theorem recent_global_call_keeps_global_and_recent:
  assumes "0 \<le> global_tokens self"
    and "global_tokens self \<le> max_cache_length self"
    and "max_cache_length self \<le> int (length input_pos)"
    and "\<forall>head\<in>set k_val. length input_pos \<le> length head"
    and "\<forall>head\<in>set v_val. length input_pos \<le> length head"
  shows "\<exists>keep_idxs.
           recent_global_call self input_pos k_val v_val =
             Inr (keep_idxs,
                  map (\<lambda>head. map (\<lambda>i. head ! nat i) keep_idxs) k_val,
                  map (\<lambda>head. map (\<lambda>i. head ! nat i) keep_idxs) v_val)
         \<and> keep_idxs =
             [0..global_tokens self - 1]
             @ [int (length input_pos) - max_cache_length self + global_tokens self
                ..int (length input_pos) - 1]
         \<and> set keep_idxs =
             {0..global_tokens self - 1}
             \<union> {int (length input_pos) - max_cache_length self + global_tokens self
                ..int (length input_pos) - 1}
         \<and> int (length keep_idxs) = max_cache_length self
         \<and> sorted_wrt (<) keep_idxs"
proof -
  let ?keep = "[0..global_tokens self - 1]
             @ [int (length input_pos) - max_cache_length self + global_tokens self
                ..int (length input_pos) - 1]"
  have "sorted_wrt (<) ?keep"
    using assms(3) by (auto simp: sorted_wrt_append sorted_wrt_upto)
  moreover have "set ?keep = {0..global_tokens self - 1}
             \<union> {int (length input_pos) - max_cache_length self + global_tokens self
                ..int (length input_pos) - 1}"
    by simp
  ultimately show ?thesis
    using recent_global_call_value(1,2) [OF assms] by blast
qed

lemma example_recent_global_32:
  "recent_global_call example_recent_global (example_positions 32)
       (example_buffer 100 32) (example_buffer 200 32) =
     Inr ([0, 1, 2, 3, 20, 21, 22, 23, 24, 25, 26, 27, 28, 29, 30, 31],
          [[100, 101, 102, 103, 120, 121, 122, 123, 124, 125, 126, 127, 128, 129, 130, 131]],
          [[200, 201, 202, 203, 220, 221, 222, 223, 224, 225, 226, 227, 228, 229, 230, 231]])"
  by code_simp

text \<open>
  The spec's example: \<open>global_tokens = 4\<close>, capacity 16 and a span of 32 positions keep
  \<open>{0, 1, 2, 3} \<union> {20, \<dots>, 31}\<close>.
\<close>

theorem recent_global_call_keeps_global_and_recent_witness:
  "0 \<le> global_tokens example_recent_global
   \<and> global_tokens example_recent_global \<le> max_cache_length example_recent_global
   \<and> max_cache_length example_recent_global \<le> int (length (example_positions 32))
   \<and> list_all (\<lambda>head. length (example_positions 32) \<le> length head) (example_buffer 100 32)
   \<and> list_all (\<lambda>head. length (example_positions 32) \<le> length head) (example_buffer 200 32)
   \<and> (\<exists>keep_idxs k_val' v_val'.
         recent_global_call example_recent_global (example_positions 32)
             (example_buffer 100 32) (example_buffer 200 32) = Inr (keep_idxs, k_val', v_val')
       \<and> keep_idxs = [0, 1, 2, 3, 20, 21, 22, 23, 24, 25, 26, 27, 28, 29, 30, 31]
       \<and> set keep_idxs = {0..3} \<union> {20..31}
       \<and> length keep_idxs = 16)"
proof -
  have h: "0 \<le> global_tokens example_recent_global"
      "global_tokens example_recent_global \<le> max_cache_length example_recent_global"
      "max_cache_length example_recent_global \<le> int (length (example_positions 32))"
      "\<forall>head\<in>set (example_buffer 100 32). length (example_positions 32) \<le> length head"
      "\<forall>head\<in>set (example_buffer 200 32). length (example_positions 32) \<le> length head"
    by (simp_all add: example_recent_global_def example_positions_def example_buffer_def)
  from recent_global_call_keeps_global_and_recent [OF h] obtain keep_idxs where
    k: "recent_global_call example_recent_global (example_positions 32)
             (example_buffer 100 32) (example_buffer 200 32) =
             Inr (keep_idxs,
                  map (\<lambda>head. map (\<lambda>i. head ! nat i) keep_idxs) (example_buffer 100 32),
                  map (\<lambda>head. map (\<lambda>i. head ! nat i) keep_idxs) (example_buffer 200 32))"
       "set keep_idxs =
             {0..global_tokens example_recent_global - 1}
             \<union> {int (length (example_positions 32)) - max_cache_length example_recent_global
                   + global_tokens example_recent_global
                ..int (length (example_positions 32)) - 1}"
    by blast
  from k(1) example_recent_global_32
  have e: "keep_idxs = [0, 1, 2, 3, 20, 21, 22, 23, 24, 25, 26, 27, 28, 29, 30, 31]" by simp
  from k(2) have "set keep_idxs = {0..3} \<union> {20..31}"
    by (simp add: example_recent_global_def example_positions_def)
  with h k(1) e show ?thesis by (simp add: list_all_iff)
qed

lemma index_positions_error: "index_positions xs idxs = Inl e \<Longrightarrow> e = IndexError"
  by (auto simp: index_positions_def Let_def split: if_splits)

lemma map_err_index_positions_error:
  "map_err (\<lambda>head. index_positions head idxs) t = Inl e \<Longrightarrow> e = IndexError"
  using map_err_Inl [of "\<lambda>head. index_positions head idxs" t e] index_positions_error by blast

text \<open>
  Claim C9, as stated, does not hold: a span of 6 positions with capacity 4 is not
  rejected but compacted to 4 keep indices.
\<close>

theorem recent_global_call_example_6:
  "int (length (example_positions 6)) \<noteq> 4
   \<and> recent_global_call
         \<lparr> head_specific = False, max_cache_length = 4, global_tokens = 1, recent_window = 0 \<rparr>
         (example_positions 6) (example_buffer 100 6) (example_buffer 200 6)
       = Inr ([0, 3, 4, 5], [[100, 103, 104, 105]], [[200, 203, 204, 205]])"
  by code_simp

text \<open>
  Claim C9, amended.  The policy's assertion compares the number of keep indices with the
  capacity, not the span length with the capacity: it fails exactly when \<open>global_tokens\<close>
  is negative or exceeds \<open>max_cache_length\<close>, whatever the span length.  A span at least
  as long as the capacity (with \<open>0 \<le> global_tokens \<le> max_cache_length\<close> and buffers that
  cover the span) is compacted to exactly \<open>max_cache_length\<close> keep indices.
\<close>

theorem recent_global_call_assertion:
  "(recent_global_call self input_pos k_val v_val = Inl AssertionError
      \<longleftrightarrow> \<not> (0 \<le> global_tokens self \<and> global_tokens self \<le> max_cache_length self))
   \<and> (0 \<le> global_tokens self \<and> global_tokens self \<le> max_cache_length self
        \<and> max_cache_length self \<le> int (length input_pos)
        \<and> (\<forall>head\<in>set k_val. length input_pos \<le> length head)
        \<and> (\<forall>head\<in>set v_val. length input_pos \<le> length head)
      \<longrightarrow> (\<exists>keep_idxs k_val' v_val'.
             recent_global_call self input_pos k_val v_val = Inr (keep_idxs, k_val', v_val')
           \<and> int (length keep_idxs) = max_cache_length self))"
proof (intro conjI impI)
  let ?keep = "py_range 0 (global_tokens self)
            @ py_range (int (length input_pos) - max_cache_length self + global_tokens self)
                       (int (length input_pos))"
  have len: "int (length ?keep) = max_cache_length self
               \<longleftrightarrow> 0 \<le> global_tokens self \<and> global_tokens self \<le> max_cache_length self"
    by (auto simp: py_range_def)
  show "recent_global_call self input_pos k_val v_val = Inl AssertionError
      \<longleftrightarrow> \<not> (0 \<le> global_tokens self \<and> global_tokens self \<le> max_cache_length self)"
  proof (cases "int (length ?keep) = max_cache_length self")
    case False
    then have "recent_global_call self input_pos k_val v_val = Inl AssertionError"
      by (simp add: recent_global_call_def Let_def)
    with False len show ?thesis by simp
  next
    case True
    have "recent_global_call self input_pos k_val v_val \<noteq> Inl AssertionError"
      using True map_err_index_positions_error [of ?keep k_val]
        map_err_index_positions_error [of ?keep v_val]
      by (auto simp: recent_global_call_def Let_def split: sum.splits)
    with True len show ?thesis by simp
  qed
next
  assume a: "0 \<le> global_tokens self \<and> global_tokens self \<le> max_cache_length self
        \<and> max_cache_length self \<le> int (length input_pos)
        \<and> (\<forall>head\<in>set k_val. length input_pos \<le> length head)
        \<and> (\<forall>head\<in>set v_val. length input_pos \<le> length head)"
  then show "\<exists>keep_idxs k_val' v_val'.
             recent_global_call self input_pos k_val v_val = Inr (keep_idxs, k_val', v_val')
           \<and> int (length keep_idxs) = max_cache_length self"
    using recent_global_call_value(1,2) [of self input_pos k_val v_val] by blast
qed

text \<open>
  Both halves at concrete inputs: five global tokens against a capacity of four fail the
  assertion; a span of 20 positions against a capacity of 16 is compacted.
\<close>

theorem recent_global_call_assertion_witness:
  "recent_global_call
       \<lparr> head_specific = False, max_cache_length = 4, global_tokens = 5, recent_window = 0 \<rparr>
       (example_positions 4) (example_buffer 100 4) (example_buffer 200 4) = Inl AssertionError
   \<and> (\<exists>keep_idxs k_val' v_val'.
         recent_global_call example_recent_global (example_positions 20)
             (example_buffer 100 20) (example_buffer 200 20) = Inr (keep_idxs, k_val', v_val')
       \<and> int (length keep_idxs) = 16)"
proof -
  have "recent_global_call
       \<lparr> head_specific = False, max_cache_length = 4, global_tokens = 5, recent_window = 0 \<rparr>
       (example_positions 4) (example_buffer 100 4) (example_buffer 200 4) = Inl AssertionError"
    using recent_global_call_assertion
      [of "\<lparr> head_specific = False, max_cache_length = 4, global_tokens = 5, recent_window = 0 \<rparr>"
          "example_positions 4" "example_buffer 100 4" "example_buffer 200 4"]
    by simp
  moreover have "\<exists>keep_idxs k_val' v_val'.
         recent_global_call example_recent_global (example_positions 20)
             (example_buffer 100 20) (example_buffer 200 20) = Inr (keep_idxs, k_val', v_val')
       \<and> int (length keep_idxs) = 16"
    using recent_global_call_assertion
      [of example_recent_global "example_positions 20" "example_buffer 100 20" "example_buffer 200 20"]
    by (simp add: example_recent_global_def example_positions_def example_buffer_def)
  ultimately show ?thesis by simp
qed

section \<open>Properties of the L2 policy\<close>

subsection \<open>The sorting selection meets the top-k contract\<close>

lemma split_sorted_wrt:
  assumes "sorted_wrt P s" and "i \<in> set (take k s)" and "j \<in> set (drop k s)"
  shows "P i j"
proof -
  have "sorted_wrt P (take k s @ drop k s)" using assms(1) by simp
  then show ?thesis using assms(2,3) unfolding sorted_wrt_append by blast
qed

lemma not_taken_dropped:
  assumes "j \<in> set s" and "j \<notin> set (take k s)"
  shows "j \<in> set (drop k s)"
proof -
  have "set s = set (take k s) \<union> set (drop k s)"
    by (metis append_take_drop_id set_append)
  with assms show ?thesis by blast
qed

lemma topk_sort_ok:
  assumes "k \<le> length xs"
  shows "topk_ok largest xs k (topk_sort largest xs k)"
proof -
  define s where "s = sort_key (\<lambda>i. xs ! i) [0..<length xs]"
  have st: "set s = {0..<length xs}" and ds: "distinct s" and ls: "length s = length xs"
    by (simp_all add: s_def)
  have up: "sorted_wrt (\<lambda>i j. xs ! i \<le> xs ! j) s"
    using sorted_sort_key [of "\<lambda>i. xs ! i" "[0..<length xs]"]
    by (simp add: s_def sorted_wrt_map)
  show ?thesis
  proof (cases largest)
    case False
    have idx: "topk_sort False xs k = take k s"
      by (simp add: topk_sort_def s_def)
    have "xs ! i \<le> xs ! j" if "i \<in> set (take k s)" "j < length xs" "j \<notin> set (take k s)" for i j
    proof -
      from that(2) st have "j \<in> set s" by simp
      then have "j \<in> set (drop k s)" using that(3) by (rule not_taken_dropped)
      from split_sorted_wrt [OF up that(1) this] show ?thesis .
    qed
    moreover have "\<forall>i\<in>set (take k s). i < length xs"
      using st in_set_takeD by fastforce
    ultimately show ?thesis
      using False assms ds ls by (simp add: topk_ok_def idx)
  next
    case True
    have idx: "topk_sort True xs k = take k (rev s)"
      by (simp add: topk_sort_def s_def)
    have down: "sorted_wrt (\<lambda>i j. xs ! j \<le> xs ! i) (rev s)"
      using up by (simp add: sorted_wrt_rev)
    have "xs ! j \<le> xs ! i"
      if "i \<in> set (take k (rev s))" "j < length xs" "j \<notin> set (take k (rev s))" for i j
    proof -
      from that(2) st have "j \<in> set (rev s)" by simp
      then have "j \<in> set (drop k (rev s))" using that(3) by (rule not_taken_dropped)
      from split_sorted_wrt [OF down that(1) this] show ?thesis .
    qed
    moreover have "\<forall>i\<in>set (take k (rev s)). i < length xs"
      using st in_set_takeD by fastforce
    ultimately show ?thesis
      using True assms ds ls by (simp add: topk_ok_def idx)
  qed
qed

lemma topk_sort_contract: "topk_contract topk_sort"
  by (simp add: topk_contract_def topk_sort_ok)

lemma map_err_nth_Inr:
  "(\<forall>i<length xs. f (xs ! i) = Inr (g i)) \<Longrightarrow> map_err f xs = Inr (map g [0..<length xs])"
proof (induction xs arbitrary: g)
  case Nil
  then show ?case by simp
next
  case (Cons x xs)
  from Cons.prems have hd: "f x = Inr (g 0)" by auto
  from Cons.prems have "\<forall>i<length xs. f (xs ! i) = Inr ((g \<circ> Suc) i)" by auto
  from Cons.IH [OF this] have tl: "map_err f xs = Inr (map (g \<circ> Suc) [0..<length xs])" .
  have "map g [0..<length (x # xs)] = g 0 # map (g \<circ> Suc) [0..<length xs]"
    by (simp add: upt_conv_Cons map_Suc_upt [symmetric] del: upt_Suc)
  with hd tl show ?case by simp
qed

lemma gather_heads_Inr:
  assumes "length idxs \<le> length t"
    and "\<forall>h<length idxs. \<forall>i\<in>set (idxs ! h). i < length (t ! h)"
  shows "gather_heads t idxs = Inr (map (\<lambda>h. map (\<lambda>i. t ! h ! i) (idxs ! h)) [0..<length idxs])"
proof -
  have "map_err (\<lambda>(head, keep). gather_positions head keep) (zip t idxs)
          = Inr (map (\<lambda>h. map (\<lambda>i. t ! h ! i) (idxs ! h)) [0..<length (zip t idxs)])"
    using assms by (intro map_err_nth_Inr) (auto simp: gather_positions_def)
  with assms(1) show ?thesis by (simp add: gather_heads_def min_def)
qed

lemma topk_ok_contains:
  assumes ok: "topk_ok largest xs k idxs"
    and i: "i < length xs"
    and card: "card {j. j < length xs \<and> (if largest then xs ! i \<le> xs ! j else xs ! j \<le> xs ! i)} \<le> k"
  shows "i \<in> set idxs"
proof (rule ccontr)
  assume out: "i \<notin> set idxs"
  let ?A = "{j. j < length xs \<and> (if largest then xs ! i \<le> xs ! j else xs ! j \<le> xs ! i)}"
  have fin: "finite ?A" by simp
  have iA: "i \<in> ?A" using i by simp
  from ok have len: "length idxs = k" and dist: "distinct idxs"
    and rng: "\<forall>s\<in>set idxs. s < length xs"
    and dom: "\<forall>s\<in>set idxs. \<forall>j<length xs. j \<notin> set idxs \<longrightarrow>
                (if largest then xs ! j \<le> xs ! s else xs ! s \<le> xs ! j)"
    by (simp_all add: topk_ok_def)
  have sub: "set idxs \<subseteq> ?A - {i}"
  proof
    fix s assume s: "s \<in> set idxs"
    with dom i out have "if largest then xs ! i \<le> xs ! s else xs ! s \<le> xs ! i" by blast
    with s rng out show "s \<in> ?A - {i}" by auto
  qed
  have "k = card (set idxs)" using len dist by (simp add: distinct_card)
  also have "\<dots> \<le> card (?A - {i})" using sub fin by (intro card_mono) auto
  also have "\<dots> < card ?A" using iA fin by (intro psubset_card_mono) auto
  finally show False using card by simp
qed

lemma sort_strict: "distinct xs \<Longrightarrow> sorted_wrt (<) (sort (xs :: nat list))"
  by (simp add: strict_sorted_iff)

lemma masked_fill_nth:
  assumes "length locality = length norms"
  shows "\<exists>scores. masked_fill norms locality = Inr scores \<and> length scores = length norms
           \<and> (\<forall>i<length norms. scores ! i = (if locality ! i then None else Some (norms ! i)))"
  using assms by (simp add: masked_fill_def)

lemma topk_sorted_indices_Inr:
  assumes "0 \<le> k" and "k \<le> int (length scores)"
  shows "topk_sorted_indices topk largest k scores = Inr (sort (topk largest scores (nat k)))"
  using assms by (simp add: topk_sorted_indices_def)

lemma none_least: "(x :: real option) \<le> None \<longleftrightarrow> x = None"
  by (cases x) simp_all

lemma l2_head:
  fixes head :: "real list list"
  assumes contract: "topk_contract topk"
    and len: "length head = length input_pos"
    and prot: "int (length (filter (\<lambda>p. p < global_tokens self
                    \<or> int (length input_pos) - recent_window self \<le> p) input_pos))
                 \<le> max_cache_length self"
    and cap: "max_cache_length self \<le> int (length input_pos)"
  defines "scores \<equiv> map (\<lambda>(x, m). if m then None else Some x)
                          (zip (map vector_norm head) (locality_mask self input_pos))"
  defines "keep \<equiv> sort (topk False scores (nat (max_cache_length self)))"
  shows "masked_fill (map vector_norm head) (locality_mask self input_pos) = Inr scores
         \<and> topk_sorted_indices topk False (max_cache_length self) scores = Inr keep
         \<and> sorted_wrt (<) keep
         \<and> int (length keep) = max_cache_length self
         \<and> (\<forall>i\<in>set keep. i < length input_pos)
         \<and> (\<forall>i<length input_pos.
               (input_pos ! i < global_tokens self
                \<or> int (length input_pos) - recent_window self \<le> input_pos ! i)
               \<longrightarrow> i \<in> set keep)
         \<and> (\<forall>i\<in>set keep. \<forall>j<length input_pos.
               j \<notin> set keep
               \<and> \<not> (input_pos ! i < global_tokens self
                      \<or> int (length input_pos) - recent_window self \<le> input_pos ! i)
               \<longrightarrow> vector_norm (head ! i) \<le> vector_norm (head ! j))"
proof -
  let ?P = "\<lambda>p. p < global_tokens self \<or> int (length input_pos) - recent_window self \<le> p"
  let ?n = "length input_pos"
  let ?c = "max_cache_length self"
  have lm: "length (locality_mask self input_pos) = length (map vector_norm head)"
    by (simp add: locality_mask_def len)
  have sc: "masked_fill (map vector_norm head) (locality_mask self input_pos) = Inr scores"
    using lm by (simp add: masked_fill_def scores_def)
  have ls: "length scores = ?n"
    by (simp add: scores_def len locality_mask_def)
  have nth: "\<forall>i<?n. scores ! i = (if ?P (input_pos ! i) then None else Some (vector_norm (head ! i)))"
    by (simp add: scores_def len locality_mask_def)
  have c0: "0 \<le> ?c" using prot by linarith
  define idxs where "idxs = topk False scores (nat ?c)"
  have kd: "keep = sort idxs" by (simp add: keep_def idxs_def)
  have keep: "topk_sorted_indices topk False ?c scores = Inr (sort idxs)"
    using c0 cap ls by (simp add: topk_sorted_indices_Inr idxs_def)
  have "nat ?c \<le> length scores" using cap ls by simp
  with contract have ok: "topk_ok False scores (nat ?c) idxs"
    by (simp add: topk_contract_def idxs_def)
  then have li: "length idxs = nat ?c" and di: "distinct idxs"
    and ri: "\<forall>i\<in>set idxs. i < ?n"
    and dom: "\<forall>i\<in>set idxs. \<forall>j<?n. j \<notin> set idxs \<longrightarrow> scores ! i \<le> scores ! j"
    by (simp_all add: topk_ok_def ls)
  have cardP: "card {j. j < ?n \<and> ?P (input_pos ! j)} \<le> nat ?c"
    using prot by (simp add: length_filter_conv_card)
  have protected: "i \<in> set idxs" if "i < ?n" "?P (input_pos ! i)" for i
  proof -
    from that nth have si: "scores ! i = None" by simp
    have sj: "scores ! j = None \<longleftrightarrow> ?P (input_pos ! j)" if "j < ?n" for j
      using that nth by simp
    have "{j. j < length scores \<and> (if False then scores ! i \<le> scores ! j else scores ! j \<le> scores ! i)}
            = {j. j < ?n \<and> ?P (input_pos ! j)}"
      using sj by (auto simp: ls si none_least)
    with cardP that(1) ls show ?thesis
      by (intro topk_ok_contains [OF ok]) simp_all
  qed
  have lowest: "vector_norm (head ! i) \<le> vector_norm (head ! j)"
    if "i \<in> set idxs" "j < ?n" "j \<notin> set idxs" "\<not> ?P (input_pos ! i)" for i j
  proof -
    from that(2,3) protected have nj: "\<not> ?P (input_pos ! j)" by blast
    from that(1) ri have "i < ?n" by blast
    with nth that(4) have si: "scores ! i = Some (vector_norm (head ! i))" by simp
    from nth that(2) nj have sj: "scores ! j = Some (vector_norm (head ! j))" by simp
    from dom that(1-3) have "scores ! i \<le> scores ! j" by blast
    then show ?thesis by (simp add: si sj)
  qed
  have "sorted_wrt (<) (sort idxs)" using di by (rule sort_strict)
  moreover have "int (length (sort idxs)) = ?c" using li c0 by simp
  moreover have "set (sort idxs) = set idxs" by simp
  ultimately show ?thesis
    using sc keep ri protected lowest unfolding kd by simp
qed

text \<open>
  Claim C3.  Let the key and value buffers have one entry per element of \<open>input_pos\<close>, let
  the selection meet the top-k contract, and let the number of protected positions (value
  below \<open>global_tokens\<close>, or at least \<open>len(input_pos) - recent_window\<close>) not exceed the
  capacity, which in turn does not exceed the span.  Then the L2 policy returns, and for
  every head: the keep indices are strictly ascending and exactly \<open>max_cache_length\<close>
  many; every protected position is kept (with the positions \<open>0, \<dots>, N - 1\<close> that the
  driver passes, the position value is the index); an unprotected position that is kept
  has a key norm no larger than that of any position that is dropped; and the compressed
  keys and values are the inputs read at the keep indices.
\<close>

theorem l2_call_keeps_protected:
  assumes contract: "topk_contract topk"
    and shape_k: "\<forall>head\<in>set k_val. length head = length input_pos"
    and heads_v: "length v_val = length k_val"
    and shape_v: "\<forall>head\<in>set v_val. length head = length input_pos"
    and prot: "int (length (filter (\<lambda>p. p < global_tokens self
                    \<or> int (length input_pos) - recent_window self \<le> p) input_pos))
                 \<le> max_cache_length self"
    and cap: "max_cache_length self \<le> int (length input_pos)"
  shows "\<exists>keep_idxs k_val_compressed v_val_compressed.
           l2_call topk self input_pos k_val v_val
             = Inr (keep_idxs, k_val_compressed, v_val_compressed)
         \<and> length keep_idxs = length k_val
         \<and> length k_val_compressed = length k_val
         \<and> length v_val_compressed = length k_val
         \<and> (\<forall>h<length k_val.
               sorted_wrt (<) (keep_idxs ! h)
             \<and> int (length (keep_idxs ! h)) = max_cache_length self
             \<and> (\<forall>i\<in>set (keep_idxs ! h). i < length input_pos)
             \<and> (\<forall>i<length input_pos.
                   (input_pos ! i < global_tokens self
                    \<or> int (length input_pos) - recent_window self \<le> input_pos ! i)
                   \<longrightarrow> i \<in> set (keep_idxs ! h))
             \<and> (input_pos = map int [0..<length input_pos] \<longrightarrow>
                  (\<forall>i<length input_pos.
                     (int i < global_tokens self
                      \<or> int (length input_pos) - recent_window self \<le> int i)
                     \<longrightarrow> i \<in> set (keep_idxs ! h)))
             \<and> (\<forall>i\<in>set (keep_idxs ! h). \<forall>j<length input_pos.
                   j \<notin> set (keep_idxs ! h)
                   \<and> \<not> (input_pos ! i < global_tokens self
                          \<or> int (length input_pos) - recent_window self \<le> input_pos ! i)
                   \<longrightarrow> vector_norm (k_val ! h ! i) \<le> vector_norm (k_val ! h ! j))
             \<and> k_val_compressed ! h = map (\<lambda>i. k_val ! h ! i) (keep_idxs ! h)
             \<and> v_val_compressed ! h = map (\<lambda>i. v_val ! h ! i) (keep_idxs ! h))"
proof -
  let ?H = "length k_val"
  let ?c = "max_cache_length self"
  define S where "S h = map (\<lambda>(x, m). if m then None else Some x)
                          (zip (map vector_norm (k_val ! h)) (locality_mask self input_pos))" for h
  define K where "K h = sort (topk False (S h) (nat ?c))" for h
  have head: "masked_fill (map vector_norm (k_val ! h)) (locality_mask self input_pos) = Inr (S h)
         \<and> topk_sorted_indices topk False ?c (S h) = Inr (K h)
         \<and> sorted_wrt (<) (K h)
         \<and> int (length (K h)) = ?c
         \<and> (\<forall>i\<in>set (K h). i < length input_pos)
         \<and> (\<forall>i<length input_pos.
               (input_pos ! i < global_tokens self
                \<or> int (length input_pos) - recent_window self \<le> input_pos ! i)
               \<longrightarrow> i \<in> set (K h))
         \<and> (\<forall>i\<in>set (K h). \<forall>j<length input_pos.
               j \<notin> set (K h)
               \<and> \<not> (input_pos ! i < global_tokens self
                      \<or> int (length input_pos) - recent_window self \<le> input_pos ! i)
               \<longrightarrow> vector_norm (k_val ! h ! i) \<le> vector_norm (k_val ! h ! j))"
    if "h < ?H" for h
    unfolding S_def K_def
    using that shape_k by (intro l2_head [OF contract _ prot cap]) simp
  have mf: "masked_fill (map vector_norm (k_val ! h)) (locality_mask self input_pos) = Inr (S h)"
    if "h < ?H" for h using head [OF that] by blast
  have tk: "topk_sorted_indices topk False ?c (S h) = Inr (K h)"
    if "h < ?H" for h using head [OF that] by blast
  have rng: "\<forall>i\<in>set (K h). i < length input_pos"
    if "h < ?H" for h using head [OF that] by blast
  have "\<forall>h<length (map (map vector_norm) k_val).
          masked_fill (map (map vector_norm) k_val ! h) (locality_mask self input_pos) = Inr (S h)"
    using mf by simp
  from map_err_nth_Inr [OF this]
  have scores: "map_err (\<lambda>norms. masked_fill norms (locality_mask self input_pos))
                  (map (map vector_norm) k_val) = Inr (map S [0..<?H])"
    by simp
  have "\<forall>h<length (map S [0..<?H]).
          topk_sorted_indices topk False ?c (map S [0..<?H] ! h) = Inr (K h)"
    using tk by simp
  from map_err_nth_Inr [OF this]
  have keep: "map_err (topk_sorted_indices topk False ?c) (map S [0..<?H]) = Inr (map K [0..<?H])"
    by simp
  have lk: "length (k_val ! h) = length input_pos" if "h < ?H" for h
    using that shape_k by simp
  have lv: "length (v_val ! h) = length input_pos" if "h < ?H" for h
    using that shape_v heads_v by simp
  have "\<forall>h<length (map K [0..<?H]). \<forall>i\<in>set (map K [0..<?H] ! h). i < length (k_val ! h)"
    using rng lk by simp
  from gather_heads_Inr [OF _ this]
  have gk: "gather_heads k_val (map K [0..<?H])
              = Inr (map (\<lambda>h. map (\<lambda>i. k_val ! h ! i) (K h)) [0..<?H])"
    by simp
  have "\<forall>h<length (map K [0..<?H]). \<forall>i\<in>set (map K [0..<?H] ! h). i < length (v_val ! h)"
    using rng lv by simp
  from gather_heads_Inr [OF _ this]
  have gv: "gather_heads v_val (map K [0..<?H])
              = Inr (map (\<lambda>h. map (\<lambda>i. v_val ! h ! i) (K h)) [0..<?H])"
    using heads_v by simp
  have call: "l2_call topk self input_pos k_val v_val
      = Inr (map K [0..<?H], map (\<lambda>h. map (\<lambda>i. k_val ! h ! i) (K h)) [0..<?H],
             map (\<lambda>h. map (\<lambda>i. v_val ! h ! i) (K h)) [0..<?H])"
    by (simp add: l2_call_def Let_def scores keep gk gv)
  have arange: "(input_pos ! i < global_tokens self
                    \<or> int (length input_pos) - recent_window self \<le> input_pos ! i)
              \<longleftrightarrow> (int i < global_tokens self
                      \<or> int (length input_pos) - recent_window self \<le> int i)"
    if "input_pos = map int [0..<length input_pos]" "i < length input_pos" for i
  proof -
    from that(1) have "input_pos ! i = map int [0..<length input_pos] ! i"
      by (rule arg_cong)
    also have "\<dots> = int i" using that(2) by simp
    finally show ?thesis by (simp only:)
  qed
  have per_head: "sorted_wrt (<) (K h)
             \<and> int (length (K h)) = max_cache_length self
             \<and> (\<forall>i\<in>set (K h). i < length input_pos)
             \<and> (\<forall>i<length input_pos.
                   (input_pos ! i < global_tokens self
                    \<or> int (length input_pos) - recent_window self \<le> input_pos ! i)
                   \<longrightarrow> i \<in> set (K h))
             \<and> (input_pos = map int [0..<length input_pos] \<longrightarrow>
                  (\<forall>i<length input_pos.
                     (int i < global_tokens self
                      \<or> int (length input_pos) - recent_window self \<le> int i)
                     \<longrightarrow> i \<in> set (K h)))
             \<and> (\<forall>i\<in>set (K h). \<forall>j<length input_pos.
                   j \<notin> set (K h)
                   \<and> \<not> (input_pos ! i < global_tokens self
                          \<or> int (length input_pos) - recent_window self \<le> input_pos ! i)
                   \<longrightarrow> vector_norm (k_val ! h ! i) \<le> vector_norm (k_val ! h ! j))"
    if h: "h < ?H" for h
  proof -
    note hd = head [OF h]
    have "\<forall>i<length input_pos.
                     (int i < global_tokens self
                      \<or> int (length input_pos) - recent_window self \<le> int i)
                     \<longrightarrow> i \<in> set (K h)"
      if "input_pos = map int [0..<length input_pos]"
      using arange [OF that] hd by blast
    with hd show ?thesis by blast
  qed
  let ?keep = "map K [0..<?H]"
  let ?k' = "map (\<lambda>h. map (\<lambda>i. k_val ! h ! i) (K h)) [0..<?H]"
  let ?v' = "map (\<lambda>h. map (\<lambda>i. v_val ! h ! i) (K h)) [0..<?H]"
  have nths: "?keep ! h = K h \<and> ?k' ! h = map (\<lambda>i. k_val ! h ! i) (K h)
              \<and> ?v' ! h = map (\<lambda>i. v_val ! h ! i) (K h)" if "h < ?H" for h
    using that by simp
  have "\<forall>h<?H. sorted_wrt (<) (?keep ! h)
             \<and> int (length (?keep ! h)) = max_cache_length self
             \<and> (\<forall>i\<in>set (?keep ! h). i < length input_pos)
             \<and> (\<forall>i<length input_pos.
                   (input_pos ! i < global_tokens self
                    \<or> int (length input_pos) - recent_window self \<le> input_pos ! i)
                   \<longrightarrow> i \<in> set (?keep ! h))
             \<and> (input_pos = map int [0..<length input_pos] \<longrightarrow>
                  (\<forall>i<length input_pos.
                     (int i < global_tokens self
                      \<or> int (length input_pos) - recent_window self \<le> int i)
                     \<longrightarrow> i \<in> set (?keep ! h)))
             \<and> (\<forall>i\<in>set (?keep ! h). \<forall>j<length input_pos.
                   j \<notin> set (?keep ! h)
                   \<and> \<not> (input_pos ! i < global_tokens self
                          \<or> int (length input_pos) - recent_window self \<le> input_pos ! i)
                   \<longrightarrow> vector_norm (k_val ! h ! i) \<le> vector_norm (k_val ! h ! j))
             \<and> ?k' ! h = map (\<lambda>i. k_val ! h ! i) (?keep ! h)
             \<and> ?v' ! h = map (\<lambda>i. v_val ! h ! i) (?keep ! h)"
  proof (intro allI impI)
    fix h assume h: "h < ?H"
    from nths [OF h] have e: "?keep ! h = K h" by blast
    show "sorted_wrt (<) (?keep ! h)
             \<and> int (length (?keep ! h)) = max_cache_length self
             \<and> (\<forall>i\<in>set (?keep ! h). i < length input_pos)
             \<and> (\<forall>i<length input_pos.
                   (input_pos ! i < global_tokens self
                    \<or> int (length input_pos) - recent_window self \<le> input_pos ! i)
                   \<longrightarrow> i \<in> set (?keep ! h))
             \<and> (input_pos = map int [0..<length input_pos] \<longrightarrow>
                  (\<forall>i<length input_pos.
                     (int i < global_tokens self
                      \<or> int (length input_pos) - recent_window self \<le> int i)
                     \<longrightarrow> i \<in> set (?keep ! h)))
             \<and> (\<forall>i\<in>set (?keep ! h). \<forall>j<length input_pos.
                   j \<notin> set (?keep ! h)
                   \<and> \<not> (input_pos ! i < global_tokens self
                          \<or> int (length input_pos) - recent_window self \<le> input_pos ! i)
                   \<longrightarrow> vector_norm (k_val ! h ! i) \<le> vector_norm (k_val ! h ! j))
             \<and> ?k' ! h = map (\<lambda>i. k_val ! h ! i) (?keep ! h)
             \<and> ?v' ! h = map (\<lambda>i. v_val ! h ! i) (?keep ! h)"
      unfolding e using per_head [OF h] nths [OF h] by blast
  qed
  moreover have "length ?keep = ?H" "length ?k' = ?H" "length ?v' = ?H" by simp_all
  ultimately show ?thesis using call by blast
qed

lemma vector_norm_single: "vector_norm [x] = \<bar>x\<bar>"
  by (simp add: vector_norm_def)

lemma upt_6: "[0..<6] = [0, 1, 2, 3, 4, 5]"
  by code_simp

lemma example_l2_scores:
  "map_err (\<lambda>norms. masked_fill norms (locality_mask example_l2 (example_positions 6)))
       (map (map vector_norm) example_keys)
     = Inr [[None, Some 3, Some 1, Some 4, None, None]]"
  by (simp add: example_keys_def vector_norm_single masked_fill_def locality_mask_def
      example_l2_def example_positions_def upt_6)

lemma example_l2_topk:
  "topk_sort False [None, Some 3, Some 1, Some 4, None, None :: real option] 4 = [0, 4, 5, 2]"
  by (simp add: topk_sort_def upt_6 take_Cons')

lemma example_l2_call:
  "l2_call topk_sort example_l2 (example_positions 6) example_keys (example_buffer 200 6)
     = Inr ([[0, 2, 4, 5]], [[[5], [1], [2], [6]]], [[200, 202, 204, 205]])"
proof -
  have keep: "map_err (topk_sorted_indices topk_sort False (max_cache_length example_l2))
                [[None, Some 3, Some 1, Some 4, None, None :: real option]] = Inr [[0, 2, 4, 5]]"
    by (simp add: topk_sorted_indices_def example_l2_def example_l2_topk)
  have gk: "gather_heads example_keys [[0, 2, 4, 5]] = Inr [[[5], [1], [2], [6]]]"
    by (simp add: gather_heads_def gather_positions_def example_keys_def)
  have gv: "gather_heads (example_buffer 200 6) [[0, 2, 4, 5]] = Inr [[200, 202, 204, 205]]"
    by (simp add: gather_heads_def gather_positions_def example_buffer_def upt_6)
  show ?thesis
    by (simp only: l2_call_def Let_def example_l2_scores keep gk gv sum.case)
qed

text \<open>
  Six positions, one global token, a recent window of two and capacity four: positions
  0, 4 and 5 are protected, and position 2 has the smallest key norm of the rest.
\<close>

theorem l2_call_keeps_protected_witness:
  "topk_contract (topk_sort :: bool \<Rightarrow> real option list \<Rightarrow> nat \<Rightarrow> nat list)
   \<and> list_all (\<lambda>head. length head = length (example_positions 6)) example_keys
   \<and> length (example_buffer 200 6) = length example_keys
   \<and> list_all (\<lambda>head. length head = length (example_positions 6)) (example_buffer 200 6)
   \<and> int (length (filter (\<lambda>p. p < global_tokens example_l2
                    \<or> int (length (example_positions 6)) - recent_window example_l2 \<le> p)
                 (example_positions 6)))
        \<le> max_cache_length example_l2
   \<and> max_cache_length example_l2 \<le> int (length (example_positions 6))
   \<and> l2_call topk_sort example_l2 (example_positions 6) example_keys (example_buffer 200 6)
        = Inr ([[0, 2, 4, 5]], [[[5], [1], [2], [6]]], [[200, 202, 204, 205]])
   \<and> {i. i < 6 \<and> (int i < 1 \<or> 4 \<le> int i)} \<subseteq> set [0, 2, 4, 5 :: nat]
   \<and> sorted_wrt (<) [0, 2, 4, 5 :: nat]"
proof -
  have h: "topk_contract (topk_sort :: bool \<Rightarrow> real option list \<Rightarrow> nat \<Rightarrow> nat list)"
      "\<forall>head\<in>set example_keys. length head = length (example_positions 6)"
      "length (example_buffer 200 6) = length example_keys"
      "\<forall>head\<in>set (example_buffer 200 6). length head = length (example_positions 6)"
      "int (length (filter (\<lambda>p. p < global_tokens example_l2
                    \<or> int (length (example_positions 6)) - recent_window example_l2 \<le> p)
                 (example_positions 6)))
        \<le> max_cache_length example_l2"
      "max_cache_length example_l2 \<le> int (length (example_positions 6))"
    by (simp_all add: topk_sort_contract example_keys_def example_positions_def
        example_buffer_def example_l2_def upt_6)
  from l2_call_keeps_protected [OF h] example_l2_call
  have "sorted_wrt (<) ([[0, 2, 4, 5 :: nat]] ! 0)
      \<and> (example_positions 6 = map int [0..<length (example_positions 6)] \<longrightarrow>
           (\<forall>i<length (example_positions 6).
              (int i < global_tokens example_l2
               \<or> int (length (example_positions 6)) - recent_window example_l2 \<le> int i)
              \<longrightarrow> i \<in> set ([[0, 2, 4, 5 :: nat]] ! 0)))"
    by (auto simp: example_keys_def)
  then have "sorted_wrt (<) [0, 2, 4, 5 :: nat]
      \<and> (\<forall>i<6. (int i < 1 \<or> 4 \<le> int i) \<longrightarrow> i \<in> set [0, 2, 4, 5 :: nat])"
    by (simp add: example_positions_def example_l2_def)
  then have "{i. i < 6 \<and> (int i < 1 \<or> 4 \<le> int i)} \<subseteq> set [0, 2, 4, 5 :: nat]
      \<and> sorted_wrt (<) [0, 2, 4, 5 :: nat]"
    by blast
  with h example_l2_call show ?thesis unfolding list_all_iff by blast
qed

section \<open>Properties of the SnapKV policy\<close>

lemma mean_rows_length:
  assumes "rows \<noteq> []" and "\<forall>row\<in>set rows. length row = n"
  shows "length (mean_rows rows) = n"
  using assms by (cases rows) (simp_all add: mean_rows_def)

lemma mean_rows_nth:
  assumes "p < length (mean_rows rows)"
  shows "mean_rows rows ! p = sum_list (map (\<lambda>row. row ! p) rows) / real (length rows)"
  using assms by (simp add: mean_rows_def)




lemma pool_length: "length (pool xs) = length xs"
  by (simp add: pool_def kernel_size_def)



lemma last_n_subset: "set (last_n k xs) \<subseteq> set xs"
  by (auto simp: last_n_def dest: in_set_dropD)

lemma last_n_nonempty: "xs \<noteq> [] \<Longrightarrow> last_n k xs \<noteq> []"
proof (cases "k = 0")
  case True
  then show "xs \<noteq> [] \<Longrightarrow> last_n k xs \<noteq> []" by (simp add: last_n_def)
next
  case False
  assume "xs \<noteq> []"
  then have "0 < length xs" by simp
  with False have "length xs - k < length xs" by simp
  then show "last_n k xs \<noteq> []" using False by (simp add: last_n_def)
qed

lemma force_window_length: "length (force_window xs) = length xs"
  by (simp add: force_window_def observation_len_def)


lemma map_by_index: "map f xs = map (\<lambda>h. f (xs ! h)) [0..<length xs]"
proof -
  have "map (\<lambda>h. f (xs ! h)) [0..<length xs] = map f (map ((!) xs) [0..<length xs])"
    by (simp only: map_map comp_def)
  also have "\<dots> = map f xs" by (simp only: map_nth)
  finally show ?thesis by (rule sym)
qed

lemma snapkv_call_value:
  fixes attn :: "real list list list"
  assumes hs: "head_specific self"
    and contract: "topk_contract topk"
    and attn_shape: "\<forall>rows\<in>set attn. rows \<noteq> [] \<and> (\<forall>row\<in>set rows. length row = n)"
    and heads_k: "length k_val = length attn" and heads_v: "length v_val = length attn"
    and shape_k: "\<forall>head\<in>set k_val. length head = n"
    and shape_v: "\<forall>head\<in>set v_val. length head = n"
    and c0: "0 \<le> max_cache_length self" and cn: "max_cache_length self \<le> int n"
  defines "P \<equiv> \<lambda>h. mean_rows (last_n observation_len (attn ! h))"
  defines "K \<equiv> \<lambda>h. sort (topk True (force_window (pool (P h))) (nat (max_cache_length self)))"
  shows "snapkv_call topk self input_pos k_val v_val attn =
           Inr (map K [0..<length attn],
                map (\<lambda>h. map (\<lambda>i. k_val ! h ! i) (K h)) [0..<length attn],
                map (\<lambda>h. map (\<lambda>i. v_val ! h ! i) (K h)) [0..<length attn],
                map (\<lambda>h. map (\<lambda>i. P h ! i) (K h)) [0..<length attn])"
    and "\<forall>h<length attn. length (P h) = n"
    and "\<forall>h<length attn.
           topk_ok True (force_window (pool (P h))) (nat (max_cache_length self))
             (topk True (force_window (pool (P h))) (nat (max_cache_length self)))"
proof -
  let ?H = "length attn"
  let ?c = "max_cache_length self"
  show lenP: "\<forall>h<?H. length (P h) = n"
  proof (intro allI impI)
    fix h assume h: "h < ?H"
    then have in_attn: "attn ! h \<in> set attn" by simp
    with attn_shape have ne: "attn ! h \<noteq> []" and rect: "\<forall>row\<in>set (attn ! h). length row = n"
      by blast+
    from ne have "last_n observation_len (attn ! h) \<noteq> []" by (rule last_n_nonempty)
    moreover from rect last_n_subset [of observation_len "attn ! h"]
    have "\<forall>row\<in>set (last_n observation_len (attn ! h)). length row = n" by blast
    ultimately show "length (P h) = n" unfolding P_def by (rule mean_rows_length)
  qed
  have lenS: "length (force_window (pool (P h))) = n" if "h < ?H" for h
    using lenP that by (simp add: force_window_length pool_length)
  show ok: "\<forall>h<?H. topk_ok True (force_window (pool (P h))) (nat ?c)
                     (topk True (force_window (pool (P h))) (nat ?c))"
  proof (intro allI impI)
    fix h assume "h < ?H"
    with lenS cn have "nat ?c \<le> length (force_window (pool (P h)))" by simp
    with contract show "topk_ok True (force_window (pool (P h))) (nat ?c)
                     (topk True (force_window (pool (P h))) (nat ?c))"
      by (simp add: topk_contract_def)
  qed
  have rngK: "\<forall>i\<in>set (K h). i < n" if "h < ?H" for h
    using ok lenS that by (simp add: K_def topk_ok_def)
  have priority: "map (\<lambda>rows. mean_rows (last_n observation_len rows)) attn = map P [0..<?H]"
    unfolding P_def by (rule map_by_index)
  have shapes: "map length (map pool (map P [0..<?H])) = map length (map P [0..<?H])"
    by (simp add: pool_length)
  have forced: "map force_window (map pool (map P [0..<?H]))
                  = map (\<lambda>h. force_window (pool (P h))) [0..<?H]"
    by simp
  have "\<forall>h<length (map (\<lambda>h. force_window (pool (P h))) [0..<?H]).
          topk_sorted_indices topk True ?c (map (\<lambda>h. force_window (pool (P h))) [0..<?H] ! h)
            = Inr (K h)"
    using lenS c0 cn by (simp add: topk_sorted_indices_Inr K_def)
  from map_err_nth_Inr [OF this]
  have keep: "map_err (topk_sorted_indices topk True ?c)
                (map (\<lambda>h. force_window (pool (P h))) [0..<?H]) = Inr (map K [0..<?H])"
    by simp
  have "\<forall>h<length (map K [0..<?H]). \<forall>i\<in>set (map K [0..<?H] ! h). i < length (map P [0..<?H] ! h)"
    using rngK lenP by simp
  from gather_heads_Inr [OF _ this]
  have gh: "gather_heads (map P [0..<?H]) (map K [0..<?H])
              = Inr (map (\<lambda>h. map (\<lambda>i. P h ! i) (K h)) [0..<?H])"
    by simp
  have lk: "length (k_val ! h) = n" if "h < ?H" for h
    using that shape_k heads_k by simp
  have lv: "length (v_val ! h) = n" if "h < ?H" for h
    using that shape_v heads_v by simp
  have "\<forall>h<length (map K [0..<?H]). \<forall>i\<in>set (map K [0..<?H] ! h). i < length (k_val ! h)"
    using rngK lk by simp
  from gather_heads_Inr [OF _ this]
  have gk: "gather_heads k_val (map K [0..<?H])
              = Inr (map (\<lambda>h. map (\<lambda>i. k_val ! h ! i) (K h)) [0..<?H])"
    using heads_k by simp
  have "\<forall>h<length (map K [0..<?H]). \<forall>i\<in>set (map K [0..<?H] ! h). i < length (v_val ! h)"
    using rngK lv by simp
  from gather_heads_Inr [OF _ this]
  have gv: "gather_heads v_val (map K [0..<?H])
              = Inr (map (\<lambda>h. map (\<lambda>i. v_val ! h ! i) (K h)) [0..<?H])"
    using heads_v by simp
  show "snapkv_call topk self input_pos k_val v_val attn =
           Inr (map K [0..<?H],
                map (\<lambda>h. map (\<lambda>i. k_val ! h ! i) (K h)) [0..<?H],
                map (\<lambda>h. map (\<lambda>i. v_val ! h ! i) (K h)) [0..<?H],
                map (\<lambda>h. map (\<lambda>i. P h ! i) (K h)) [0..<?H])"
    unfolding snapkv_call_def Let_def priority
    by (simp only: hs shapes forced keep gh gk gv sum.case if_True if_False not_True_eq_False
        simp_thms)
qed


text \<open>
  Claim C8.  When the SnapKV policy is called on well-shaped inputs (at least one query
  row per head, \<open>n\<close> key positions, \<open>0 \<le> max_cache_length \<le> n\<close>) it returns, and the retained
  attention history of head \<open>h\<close> has one entry per keep index: the raw priority of that
  position, that is the mean over the last \<open>observation_len\<close> query rows of the attention
  weight at the position.  It is neither the pooled value nor the value 1 that overwrites
  the observation window; pooling and overwriting only decide which indices are kept.
\<close>

theorem snapkv_call_history_is_raw_priority:
  fixes attn :: "real list list list"
  assumes hs: "head_specific self"
    and contract: "topk_contract topk"
    and attn_shape: "\<forall>rows\<in>set attn. rows \<noteq> [] \<and> (\<forall>row\<in>set rows. length row = n)"
    and heads_k: "length k_val = length attn" and heads_v: "length v_val = length attn"
    and shape_k: "\<forall>head\<in>set k_val. length head = n"
    and shape_v: "\<forall>head\<in>set v_val. length head = n"
    and c0: "0 \<le> max_cache_length self" and cn: "max_cache_length self \<le> int n"
  shows "\<exists>keep_idxs k_val_compressed v_val_compressed attn_history.
           snapkv_call topk self input_pos k_val v_val attn
             = Inr (keep_idxs, k_val_compressed, v_val_compressed, attn_history)
         \<and> length keep_idxs = length attn
         \<and> length attn_history = length attn
         \<and> (\<forall>h<length attn.
               keep_idxs ! h =
                 sort (topk True
                         (force_window (pool (mean_rows (last_n observation_len (attn ! h)))))
                         (nat (max_cache_length self)))
             \<and> length (attn_history ! h) = length (keep_idxs ! h)
             \<and> (\<forall>i<length (keep_idxs ! h).
                   keep_idxs ! h ! i < n
                 \<and> attn_history ! h ! i =
                     sum_list (map (\<lambda>row. row ! (keep_idxs ! h ! i))
                                   (last_n observation_len (attn ! h)))
                     / real (length (last_n observation_len (attn ! h)))))"
proof -
  let ?H = "length attn"
  let ?c = "max_cache_length self"
  define P where "P h = mean_rows (last_n observation_len (attn ! h))" for h
  define K where "K h = sort (topk True (force_window (pool (P h))) (nat ?c))" for h
  note val = snapkv_call_value [OF hs contract attn_shape heads_k heads_v shape_k shape_v c0 cn,
      folded P_def, folded K_def]
  have head: "length (map (\<lambda>i. P h ! i) (K h)) = length (K h)
      \<and> (\<forall>i<length (K h). K h ! i < n
            \<and> map (\<lambda>i. P h ! i) (K h) ! i =
                sum_list (map (\<lambda>row. row ! (K h ! i)) (last_n observation_len (attn ! h)))
                / real (length (last_n observation_len (attn ! h))))"
    if h: "h < ?H" for h
  proof -
    from val(2) h have lenP: "length (P h) = n" by blast
    from val(3) h have "topk_ok True (force_window (pool (P h))) (nat ?c)
                          (topk True (force_window (pool (P h))) (nat ?c))" by blast
    then have rng: "\<forall>i\<in>set (K h). i < n"
      by (simp add: topk_ok_def K_def force_window_length pool_length lenP)
    have "K h ! i < n \<and> map (\<lambda>i. P h ! i) (K h) ! i =
                sum_list (map (\<lambda>row. row ! (K h ! i)) (last_n observation_len (attn ! h)))
                / real (length (last_n observation_len (attn ! h)))"
      if i: "i < length (K h)" for i
    proof -
      from i rng have kn: "K h ! i < n" by simp
      with lenP have "P h ! (K h ! i) =
          sum_list (map (\<lambda>row. row ! (K h ! i)) (last_n observation_len (attn ! h)))
          / real (length (last_n observation_len (attn ! h)))"
        unfolding P_def by (intro mean_rows_nth) simp
      with i kn show ?thesis by simp
    qed
    then show ?thesis by simp
  qed
  let ?keep = "map K [0..<?H]"
  let ?hist = "map (\<lambda>h. map (\<lambda>i. P h ! i) (K h)) [0..<?H]"
  have "\<forall>h<?H. ?keep ! h = sort (topk True
                         (force_window (pool (mean_rows (last_n observation_len (attn ! h)))))
                         (nat ?c))
             \<and> length (?hist ! h) = length (?keep ! h)
             \<and> (\<forall>i<length (?keep ! h).
                   ?keep ! h ! i < n
                 \<and> ?hist ! h ! i =
                     sum_list (map (\<lambda>row. row ! (?keep ! h ! i))
                                   (last_n observation_len (attn ! h)))
                     / real (length (last_n observation_len (attn ! h))))"
  proof (intro allI impI)
    fix h assume h: "h < ?H"
    then have e: "?keep ! h = K h" "?hist ! h = map (\<lambda>i. P h ! i) (K h)" by simp_all
    have k: "K h = sort (topk True
                         (force_window (pool (mean_rows (last_n observation_len (attn ! h)))))
                         (nat ?c))"
      by (simp add: K_def P_def)
    show "?keep ! h = sort (topk True
                         (force_window (pool (mean_rows (last_n observation_len (attn ! h)))))
                         (nat ?c))
             \<and> length (?hist ! h) = length (?keep ! h)
             \<and> (\<forall>i<length (?keep ! h).
                   ?keep ! h ! i < n
                 \<and> ?hist ! h ! i =
                     sum_list (map (\<lambda>row. row ! (?keep ! h ! i))
                                   (last_n observation_len (attn ! h)))
                     / real (length (last_n observation_len (attn ! h))))"
      unfolding e using head [OF h] k by blast
  qed
  moreover have "length ?keep = ?H" "length ?hist = ?H" by simp_all
  ultimately show ?thesis using val(1) by blast
qed


lemma example_snapkv_17:
  "snapkv_call topk_sort (example_snapkv 17) (example_positions 18)
       (example_buffer 100 18) (example_buffer 200 18) example_attn
     = Inr ([[0, 2, 3, 4, 5, 6, 7, 8, 9, 10, 11, 12, 13, 14, 15, 16, 17]],
            [[100, 102, 103, 104, 105, 106, 107, 108, 109, 110, 111, 112, 113, 114, 115, 116, 117]],
            [[200, 202, 203, 204, 205, 206, 207, 208, 209, 210, 211, 212, 213, 214, 215, 216, 217]],
            [[1 / 4, 0, 0, 0, 0, 0, 0, 0, 0, 0, 0, 0, 0, 0, 0, 0, 0]])"
  by code_simp

lemma example_attn_smoothed:
  "pool (mean_rows (last_n observation_len (example_attn ! 0))) ! 0 = 1 / 3
   \<and> pool (mean_rows (last_n observation_len (example_attn ! 0))) ! 1 = 1 / 4"
  by code_simp

lemma upt_18: "[0..<18] = [0, 1, 2, 3, 4, 5, 6, 7, 8, 9, 10, 11, 12, 13, 14, 15, 16, 17]"
  by code_simp

lemma example_snapkv_shapes:
  "head_specific (example_snapkv c)"
  "topk_contract (topk_sort :: bool \<Rightarrow> real list \<Rightarrow> nat \<Rightarrow> nat list)"
  "\<forall>rows\<in>set example_attn. rows \<noteq> [] \<and>
       (\<forall>row\<in>set rows. length row = 18 \<and> (\<forall>x\<in>set row. 0 \<le> x) \<and> sum_list row = 1)"
  "length (example_buffer 100 18) = length example_attn"
  "length (example_buffer 200 18) = length example_attn"
  "\<forall>head\<in>set (example_buffer 100 18). length head = 18"
  "\<forall>head\<in>set (example_buffer 200 18). length head = 18"
  by (simp_all add: example_snapkv_def topk_sort_contract example_attn_def example_buffer_def)



text \<open>
  The same attention with capacity 17.  Position 0 is kept besides the window, because
  its smoothed score 1/3 beats the 1/4 of position 1; the history holds its raw priority
  1/4, and the raw priority 0 for the window positions.
\<close>

theorem snapkv_call_history_is_raw_priority_witness:
  "head_specific (example_snapkv 17)
   \<and> topk_contract (topk_sort :: bool \<Rightarrow> real list \<Rightarrow> nat \<Rightarrow> nat list)
   \<and> list_all (\<lambda>rows. rows \<noteq> [] \<and> list_all (\<lambda>row. length row = 18) rows) example_attn
   \<and> 0 \<le> max_cache_length (example_snapkv 17)
   \<and> max_cache_length (example_snapkv 17) \<le> int 18
   \<and> snapkv_call topk_sort (example_snapkv 17) (example_positions 18)
         (example_buffer 100 18) (example_buffer 200 18) example_attn
       = Inr ([[0, 2, 3, 4, 5, 6, 7, 8, 9, 10, 11, 12, 13, 14, 15, 16, 17]],
            [[100, 102, 103, 104, 105, 106, 107, 108, 109, 110, 111, 112, 113, 114, 115, 116, 117]],
            [[200, 202, 203, 204, 205, 206, 207, 208, 209, 210, 211, 212, 213, 214, 215, 216, 217]],
            [[1 / 4, 0, 0, 0, 0, 0, 0, 0, 0, 0, 0, 0, 0, 0, 0, 0, 0]])
   \<and> (1 / 4 :: real)
       = sum_list (map (\<lambda>row. row ! 0) (last_n observation_len (example_attn ! 0)))
         / real (length (last_n observation_len (example_attn ! 0)))
   \<and> pool (mean_rows (last_n observation_len (example_attn ! 0))) ! 0 = 1 / 3"
proof -
  have c: "0 \<le> max_cache_length (example_snapkv 17)"
      "max_cache_length (example_snapkv 17) \<le> int 18"
    by (simp_all add: example_snapkv_def)
  have shape: "\<forall>rows\<in>set example_attn. rows \<noteq> [] \<and> (\<forall>row\<in>set rows. length row = 18)"
    using example_snapkv_shapes(3) by blast
  let ?keep = "[[0, 2, 3, 4, 5, 6, 7, 8, 9, 10, 11, 12, 13, 14, 15, 16, 17 :: nat]]"
  let ?hist = "[[1 / 4, 0, 0, 0, 0, 0, 0, 0, 0, 0, 0, 0, 0, 0, 0, 0, 0 :: real]]"
  from snapkv_call_history_is_raw_priority
         [OF example_snapkv_shapes(1,2) shape example_snapkv_shapes(4-7) c,
          of "example_positions 18"] example_snapkv_17
  have "\<forall>h<length example_attn. \<forall>i<length (?keep ! h).
          ?hist ! h ! i =
            sum_list (map (\<lambda>row. row ! (?keep ! h ! i)) (last_n observation_len (example_attn ! h)))
            / real (length (last_n observation_len (example_attn ! h)))"
    by auto
  moreover have "0 < length example_attn" by (simp add: example_attn_def)
  moreover have "0 < length (?keep ! 0)" by simp
  ultimately have "?hist ! 0 ! 0 =
            sum_list (map (\<lambda>row. row ! (?keep ! 0 ! 0)) (last_n observation_len (example_attn ! 0)))
            / real (length (last_n observation_len (example_attn ! 0)))"
    by blast
  then have "(1 / 4 :: real)
       = sum_list (map (\<lambda>row. row ! 0) (last_n observation_len (example_attn ! 0)))
         / real (length (last_n observation_len (example_attn ! 0)))"
    by (simp only: nth_Cons_0)
  with example_snapkv_shapes(1,2) shape c example_snapkv_17 example_attn_smoothed
  show ?thesis unfolding list_all_iff by blast
qed

section \<open>Properties of the generation driver\<close>

subsection \<open>The decode loop\<close>

lemma greedy_token:
  "fst (greedy model logits next_token) = (case next_token of None \<Rightarrow> int (argmax model (softmax model logits)) | Some t \<Rightarrow> t)"
  by (simp add: greedy_def Let_def)

lemma decode_one_token_Inr:
  assumes "decode_one_token model s x input_pos next_token = Inr (s', tok, prob)"
  shows "length input_pos = 1 \<and> (case next_token of None \<Rightarrow> 0 \<le> tok | Some t \<Rightarrow> tok = t)"
  using assms
  by (auto simp: decode_one_token_def greedy_def Let_def split: if_splits prod.splits option.splits)

lemma decode_loop_stops:
  assumes "decode_loop model terminator_ids prefix remaining i s cur_token input_pos acc accp
             = Inr (s', toks, ps)"
  shows "\<exists>new. toks = acc @ new \<and> length new \<le> remaining
           \<and> (\<forall>j<length new.
                 (\<exists>ts. terminator_ids = Some ts \<and> new ! j \<in> set ts)
                 \<and> \<not> (\<exists>p. prefix = Some p \<and> i + j < length p)
                 \<longrightarrow> Suc j = length new)
           \<and> (length new < remaining \<longrightarrow>
                 new \<noteq> [] \<and> (\<exists>ts. terminator_ids = Some ts \<and> last new \<in> set ts)
                 \<and> \<not> (\<exists>p. prefix = Some p \<and> i + (length new - 1) < length p))
           \<and> (\<forall>j<length new.
                 (\<exists>p. prefix = Some p \<and> i + j < length p \<and> new ! j = p ! (i + j))
                 \<or> 0 \<le> new ! j)"
  using assms
proof (induction remaining arbitrary: i s cur_token input_pos acc accp)
  case 0
  then show ?case by simp
next
  case (Suc remaining)
  let ?tf = "case prefix of None \<Rightarrow> False | Some p \<Rightarrow> i < length p"
  let ?nt = "case prefix of None \<Rightarrow> None | Some p \<Rightarrow> if ?tf then Some (p ! i) else None"
  have step: "decode_loop model terminator_ids prefix (Suc remaining) i s cur_token input_pos
                 acc accp =
      (case decode_one_token model s [cur_token] input_pos ?nt of
           Inl e \<Rightarrow> Inl e
         | Inr (s', next_token, next_prob) \<Rightarrow>
             if (case terminator_ids of None \<Rightarrow> False | Some ts \<Rightarrow> next_token \<in> set ts)
                \<and> \<not> ?tf
             then Inr (s', acc @ [next_token], accp @ [next_prob])
             else decode_loop model terminator_ids prefix remaining (Suc i) s' next_token
                    (map (\<lambda>p. p + 1) input_pos)
                    (acc @ [next_token]) (accp @ [next_prob]))"
    by (simp only: decode_loop.simps Let_def)
  from Suc.prems [unfolded step] obtain s1 tok prob where
    one: "decode_one_token model s [cur_token] input_pos ?nt = Inr (s1, tok, prob)"
    by (cases "decode_one_token model s [cur_token] input_pos ?nt") auto
  note run = Suc.prems [unfolded step one sum.case prod.case]
  have tf_iff: "?tf \<longleftrightarrow> (\<exists>p. prefix = Some p \<and> i < length p)"
    by (cases prefix) simp_all
  from decode_one_token_Inr [OF one]
  have tokp: "(\<exists>p. prefix = Some p \<and> i < length p \<and> tok = p ! i) \<or> 0 \<le> tok"
    by (cases prefix) (auto split: if_splits)
  let ?is_term = "case terminator_ids of None \<Rightarrow> False | Some ts \<Rightarrow> tok \<in> set ts"
  have is_term_iff: "?is_term \<longleftrightarrow> (\<exists>ts. terminator_ids = Some ts \<and> tok \<in> set ts)"
    by (cases terminator_ids) simp_all
  show ?case
  proof (cases "?is_term \<and> \<not> ?tf")
    case True
    with run have "toks = acc @ [tok]"
      by (simp only: if_True prod.inject sum.inject) simp
    moreover from True have "(\<exists>ts. terminator_ids = Some ts \<and> tok \<in> set ts)"
        "\<not> (\<exists>p. prefix = Some p \<and> i < length p)"
      using is_term_iff tf_iff by blast+
    ultimately show ?thesis using tokp
      by (intro exI [of _ "[tok]"]) simp
  next
    case False
    with run have rec:
      "decode_loop model terminator_ids prefix remaining (Suc i) s1 tok
         (map (\<lambda>p. p + 1) input_pos) (acc @ [tok]) (accp @ [prob]) = Inr (s', toks, ps)"
      by (simp only: if_False)
    from Suc.IH [OF rec] obtain new where
      n: "toks = (acc @ [tok]) @ new" "length new \<le> remaining"
         "\<forall>j<length new.
                 (\<exists>ts. terminator_ids = Some ts \<and> new ! j \<in> set ts)
                 \<and> \<not> (\<exists>p. prefix = Some p \<and> Suc i + j < length p)
                 \<longrightarrow> Suc j = length new"
         "length new < remaining \<longrightarrow>
                 new \<noteq> [] \<and> (\<exists>ts. terminator_ids = Some ts \<and> last new \<in> set ts)
                 \<and> \<not> (\<exists>p. prefix = Some p \<and> Suc i + (length new - 1) < length p)"
         "\<forall>j<length new.
                 (\<exists>p. prefix = Some p \<and> Suc i + j < length p \<and> new ! j = p ! (Suc i + j))
                 \<or> 0 \<le> new ! j"
      by blast
    from False is_term_iff tf_iff
    have nostop: "\<not> ((\<exists>ts. terminator_ids = Some ts \<and> tok \<in> set ts)
                      \<and> \<not> (\<exists>p. prefix = Some p \<and> i < length p))"
      by blast
    let ?new = "tok # new"
    have a: "toks = acc @ ?new" using n(1) by simp
    have b: "length ?new \<le> Suc remaining" using n(2) by simp
    have c: "\<forall>j<length ?new.
                 (\<exists>ts. terminator_ids = Some ts \<and> ?new ! j \<in> set ts)
                 \<and> \<not> (\<exists>p. prefix = Some p \<and> i + j < length p)
                 \<longrightarrow> Suc j = length ?new"
    proof (intro allI impI)
      fix j assume j: "j < length ?new"
        and h: "(\<exists>ts. terminator_ids = Some ts \<and> ?new ! j \<in> set ts)
                 \<and> \<not> (\<exists>p. prefix = Some p \<and> i + j < length p)"
      show "Suc j = length ?new"
      proof (cases j)
        case 0
        with h nostop show ?thesis by simp
      next
        case (Suc k)
        with j h n(3) show ?thesis by simp
      qed
    qed
    have d: "length ?new < Suc remaining \<longrightarrow>
                 ?new \<noteq> [] \<and> (\<exists>ts. terminator_ids = Some ts \<and> last ?new \<in> set ts)
                 \<and> \<not> (\<exists>p. prefix = Some p \<and> i + (length ?new - 1) < length p)"
    proof
      assume "length ?new < Suc remaining"
      then have lt: "length new < remaining" by simp
      with n(4) have ne: "new \<noteq> []"
        and t: "\<exists>ts. terminator_ids = Some ts \<and> last new \<in> set ts"
        and f: "\<not> (\<exists>p. prefix = Some p \<and> Suc i + (length new - 1) < length p)"
        by blast+
      from ne have eq: "Suc i + (length new - 1) = i + (length ?new - 1)"
        by (cases new) simp_all
      from f have f': "\<not> (\<exists>p. prefix = Some p \<and> i + (length ?new - 1) < length p)"
        unfolding eq .
      from ne t have "(\<exists>ts. terminator_ids = Some ts \<and> last ?new \<in> set ts)" by simp
      with f' show "?new \<noteq> [] \<and> (\<exists>ts. terminator_ids = Some ts \<and> last ?new \<in> set ts)
                 \<and> \<not> (\<exists>p. prefix = Some p \<and> i + (length ?new - 1) < length p)"
        by blast
    qed
    have e: "\<forall>j<length ?new.
                 (\<exists>p. prefix = Some p \<and> i + j < length p \<and> ?new ! j = p ! (i + j))
                 \<or> 0 \<le> ?new ! j"
    proof (intro allI impI)
      fix j assume j: "j < length ?new"
      show "(\<exists>p. prefix = Some p \<and> i + j < length p \<and> ?new ! j = p ! (i + j))
                 \<or> 0 \<le> ?new ! j"
      proof (cases j)
        case 0
        with tokp show ?thesis by simp
      next
        case (Suc k)
        with j n(5) show ?thesis by simp
      qed
    qed
    from a b c d e show ?thesis by blast
  qed
qed

lemma long_prompt_split_cases:
  assumes "long_prompt_split mcl feed prompt mnt0 = (p', prefix, mnt, pl)"
  shows "(\<not> ((feed \<and> int (length prompt) > mcl - 1) \<or> int (length prompt) = mcl)
            \<and> p' = prompt \<and> prefix = None \<and> mnt = mnt0 \<and> pl = int (length prompt))
         \<or> (((feed \<and> int (length prompt) > mcl - 1) \<or> int (length prompt) = mcl)
            \<and> p' = py_take prompt (mcl - 1) \<and> prefix = Some (py_drop prompt (mcl - 1))
            \<and> mnt = mnt0 + int (length (py_drop prompt (mcl - 1))) \<and> pl = mcl - 1)"
  using assms by (auto simp: long_prompt_split_def Let_def split: if_splits)

lemma py_take_drop: "py_take xs k @ py_drop xs k = xs"
  by (simp add: py_take_def py_drop_def)

lemma long_prompt_split_lengths:
  assumes split: "long_prompt_split mcl feed prompt mnt0 = (p', prefix, mnt, pl)"
    and pl: "0 \<le> pl"
  shows "length p' = nat pl \<and> set p' \<subseteq> set prompt
             \<and> (\<forall>p. prefix = Some p \<longrightarrow> p' @ p = prompt \<and> p \<noteq> [])"
proof -
  from long_prompt_split_cases [OF split] consider
    (whole) "p' = prompt" "prefix = None" "pl = int (length prompt)"
  | (cut) "(feed \<and> int (length prompt) > mcl - 1) \<or> int (length prompt) = mcl"
      "p' = py_take prompt (mcl - 1)" "prefix = Some (py_drop prompt (mcl - 1))" "pl = mcl - 1"
    by blast
  then show "length p' = nat pl \<and> set p' \<subseteq> set prompt
             \<and> (\<forall>p. prefix = Some p \<longrightarrow> p' @ p = prompt \<and> p \<noteq> [])"
  proof cases
    case whole
    then show ?thesis by simp
  next
    case cut
    from cut(1,4) have lt: "pl < int (length prompt)" by auto
    with pl cut(2,4) have a: "length p' = nat pl" by (simp add: py_take_def slice_index_def)
    from cut(2) have b: "set p' \<subseteq> set prompt"
      by (auto simp: py_take_def dest: in_set_takeD)
    from lt pl cut(4) have "length (py_drop prompt (mcl - 1)) = length prompt - nat pl"
      by (simp add: py_drop_def slice_index_def)
    with lt pl have "py_drop prompt (mcl - 1) \<noteq> []" by auto
    with cut(2,3) have "\<forall>p. prefix = Some p \<longrightarrow> p' @ p = prompt \<and> p \<noteq> []"
      by (simp add: py_take_drop)
    with a b show ?thesis by blast
  qed
qed

lemma buffer_after_prefill:
  assumes sa: "slice_assign (replicate N (- 1)) 0 pl p' = Inr seq0"
    and pl: "0 \<le> pl" and len: "length p' = nat pl"
    and ia: "index_assign seq0 pl t1 = Inr seq1"
  shows "nat pl < N \<and> seq1 = p' @ t1 # replicate (N - nat pl - 1) (- 1)"
proof -
  have lo: "slice_index (length (replicate N (- 1 :: int))) 0 = 0"
    by (simp add: slice_index_def)
  have hi: "slice_index (length (replicate N (- 1 :: int))) pl = min (nat pl) N"
    using pl by (simp add: slice_index_def)
  from ia have inb: "pl < int (length seq0)"
    by (auto simp: index_assign_def Let_def split: if_splits)
  have seq0: "seq0 = p' @ replicate (N - nat pl) (- 1) \<and> nat pl \<le> N"
  proof (cases "length p' = min (nat pl) N")
    case True
    with len have le: "nat pl \<le> N" by simp
    from sa True have "seq0 = p' @ drop (min (nat pl) N) (replicate N (- 1))"
      unfolding slice_assign_def Let_def lo hi by simp
    with le show ?thesis by (simp add: min_def)
  next
    case False
    with sa have "length p' = 1"
      unfolding slice_assign_def Let_def lo hi by (simp split: if_splits)
    with len False have "N = 0" by (simp add: min_def split: if_splits)
    with sa False \<open>length p' = 1\<close> have "seq0 = []"
      unfolding slice_assign_def Let_def lo hi by (simp split: if_splits)
    with inb pl show ?thesis by simp
  qed
  with inb pl len have lt: "nat pl < N" by simp
  from ia pl inb have "seq1 = seq0[nat pl := t1]"
    by (auto simp: index_assign_def Let_def split: if_splits)
  also have "\<dots> = p' @ (replicate (N - nat pl) (- 1))[0 := t1]"
    using seq0 len by (simp add: list_update_append)
  also have "(replicate (N - nat pl) (- 1 :: int))[0 := t1] = t1 # replicate (N - nat pl - 1) (- 1)"
    using lt by (cases "N - nat pl") simp_all
  finally show ?thesis using lt by simp
qed

lemma buffer_after_decode:
  assumes seq1: "seq1 = p' @ t1 # replicate M (- 1)"
    and pl: "0 \<le> pl" and len: "length p' = nat pl"
    and fits: "length toks \<le> M"
    and sa: "(if toks \<noteq> [] then slice_assign seq1 (pl + 1) (pl + 1 + int (length toks)) toks
              else Inr seq1) = Inr seq2"
  shows "seq2 = p' @ t1 # toks @ replicate (M - length toks) (- 1)"
proof (cases "toks = []")
  case True
  with sa seq1 show ?thesis by simp
next
  case False
  have n: "length seq1 = nat pl + 1 + M" by (simp add: seq1 len)
  have lo: "slice_index (length seq1) (pl + 1) = nat pl + 1"
    using pl by (simp add: slice_index_def n nat_add_distrib)
  have hi: "slice_index (length seq1) (pl + 1 + int (length toks)) = nat pl + 1 + length toks"
    using pl fits by (simp add: slice_index_def n nat_add_distrib)
  from sa False have "seq2 = take (nat pl + 1) seq1 @ toks @ drop (nat pl + 1 + length toks) seq1"
    unfolding slice_assign_def Let_def lo hi by simp
  moreover have "take (nat pl + 1) seq1 = p' @ [t1]" by (simp add: seq1 len)
  moreover have "drop (nat pl + 1 + length toks) seq1 = replicate (M - length toks) (- 1)"
    by (simp add: seq1 len)
  ultimately show ?thesis by simp
qed

lemma generate_steps:
  assumes gen: "generate model s prompt mnt0 terminator_ids feed = Inr (s', seq, probs)"
    and split: "long_prompt_split (min_cache_length model s) feed prompt mnt0 = (p', prefix, mnt, pl)"
  shows "\<exists>seq0 first s1 t1 p1 seq1 toks ps seq2.
           0 \<le> pl + mnt \<and> 0 \<le> pl
         \<and> slice_assign (replicate (nat (pl + mnt)) (- 1)) 0 pl p' = Inr seq0
         \<and> (case prefix of None \<Rightarrow> first = None | Some p \<Rightarrow> p \<noteq> [] \<and> first = Some (p ! 0))
         \<and> prefill model s p' (py_range 0 pl) first = (s1, t1, p1)
         \<and> index_assign seq0 pl t1 = Inr seq1
         \<and> decode_n_tokens model s1 t1 [pl] (mnt - 1) terminator_ids
              (map_option (\<lambda>p. py_drop p 1) prefix) = Inr (s', toks, ps)
         \<and> (if toks \<noteq> [] then slice_assign seq1 (pl + 1) (pl + 1 + int (length toks)) toks
              else Inr seq1) = Inr seq2
         \<and> seq = (if - 1 \<in> set seq2 then takeWhile (\<lambda>t. t \<noteq> - 1) seq2 else seq2)
         \<and> probs = p1 # ps"
  using gen unfolding generate_def split prod.case
  by (cases prefix)
     (auto split: if_splits sum.splits prod.splits simp del: takeWhile_eq_all_conv)

lemma decode_n_tokens_stops:
  assumes "decode_n_tokens model s cur_token input_pos num terminator_ids prefix = Inr (s', toks, ps)"
  shows "length toks \<le> nat num
       \<and> (\<forall>j<length toks.
             (\<exists>ts. terminator_ids = Some ts \<and> toks ! j \<in> set ts)
             \<and> \<not> (\<exists>p. prefix = Some p \<and> j < length p)
             \<longrightarrow> Suc j = length toks)
       \<and> (length toks < nat num \<longrightarrow>
             toks \<noteq> [] \<and> (\<exists>ts. terminator_ids = Some ts \<and> last toks \<in> set ts)
             \<and> \<not> (\<exists>p. prefix = Some p \<and> length toks - 1 < length p))
       \<and> (\<forall>j<length toks.
             (\<exists>p. prefix = Some p \<and> j < length p \<and> toks ! j = p ! j) \<or> 0 \<le> toks ! j)"
  using decode_loop_stops [OF assms [unfolded decode_n_tokens_def]] by simp

lemma generate_shape:
  assumes gen: "generate model s prompt mnt0 terminator_ids feed = Inr (s', seq, probs)"
    and split: "long_prompt_split (min_cache_length model s) feed prompt mnt0 = (p', prefix, mnt, pl)"
  shows "\<exists>first s1 t1 p1 toks ps.
           0 \<le> pl \<and> 1 \<le> mnt \<and> length p' = nat pl
         \<and> (case prefix of None \<Rightarrow> first = None | Some p \<Rightarrow> p \<noteq> [] \<and> first = Some (p ! 0))
         \<and> prefill model s p' (py_range 0 pl) first = (s1, t1, p1)
         \<and> decode_n_tokens model s1 t1 [pl] (mnt - 1) terminator_ids
              (map_option (\<lambda>p. py_drop p 1) prefix) = Inr (s', toks, ps)
         \<and> probs = p1 # ps
         \<and> length toks \<le> nat (mnt - 1)
         \<and> seq = (if - 1 \<in> set (p' @ t1 # toks @ replicate (nat (mnt - 1) - length toks) (- 1))
                  then takeWhile (\<lambda>t. t \<noteq> - 1)
                         (p' @ t1 # toks @ replicate (nat (mnt - 1) - length toks) (- 1))
                  else p' @ t1 # toks @ replicate (nat (mnt - 1) - length toks) (- 1))"
proof -
  from generate_steps [OF gen split] obtain seq0 first s1 t1 p1 seq1 toks ps seq2 where
    pl: "0 \<le> pl"
    and sa0: "slice_assign (replicate (nat (pl + mnt)) (- 1)) 0 pl p' = Inr seq0"
    and first: "case prefix of None \<Rightarrow> first = None | Some p \<Rightarrow> p \<noteq> [] \<and> first = Some (p ! 0)"
    and pre: "prefill model s p' (py_range 0 pl) first = (s1, t1, p1)"
    and ia: "index_assign seq0 pl t1 = Inr seq1"
    and dec: "decode_n_tokens model s1 t1 [pl] (mnt - 1) terminator_ids
              (map_option (\<lambda>p. py_drop p 1) prefix) = Inr (s', toks, ps)"
    and sa1: "(if toks \<noteq> [] then slice_assign seq1 (pl + 1) (pl + 1 + int (length toks)) toks
              else Inr seq1) = Inr seq2"
    and seq: "seq = (if - 1 \<in> set seq2 then takeWhile (\<lambda>t. t \<noteq> - 1) seq2 else seq2)"
    and probs: "probs = p1 # ps"
    by blast
  from long_prompt_split_lengths [OF split pl] have len: "length p' = nat pl" by blast
  from buffer_after_prefill [OF sa0 pl len ia]
  have lt: "nat pl < nat (pl + mnt)"
    and seq1: "seq1 = p' @ t1 # replicate (nat (pl + mnt) - nat pl - 1) (- 1)"
    by blast+
  from lt pl have mnt: "1 \<le> mnt" by linarith
  with pl have m: "nat (pl + mnt) - nat pl - 1 = nat (mnt - 1)" by linarith
  from decode_n_tokens_stops [OF dec] have fits: "length toks \<le> nat (mnt - 1)" by blast
  from buffer_after_decode [OF seq1 [unfolded m] pl len fits sa1]
  have seq2: "seq2 = p' @ t1 # toks @ replicate (nat (mnt - 1) - length toks) (- 1)" .
  from pl mnt len first pre dec probs fits seq [unfolded seq2] show ?thesis by blast
qed

lemma prefill_token:
  assumes "prefill model s x input_pos first = (s1, t1, p1)"
  shows "case first of None \<Rightarrow> 0 \<le> t1 | Some t \<Rightarrow> t1 = t"
  using assms
  by (auto simp: prefill_def greedy_def Let_def split: prod.splits option.splits)

lemma set_py_drop: "set (py_drop xs k) \<subseteq> set xs"
  by (auto simp: py_drop_def dest: in_set_dropD)

lemma generate_no_sentinel:
  assumes gen: "generate model s prompt mnt0 terminator_ids feed = Inr (s', seq, probs)"
    and split: "long_prompt_split (min_cache_length model s) feed prompt mnt0 = (p', prefix, mnt, pl)"
    and clean: "- 1 \<notin> set prompt"
  shows "\<exists>first s1 t1 p1 toks ps.
           0 \<le> pl \<and> 1 \<le> mnt \<and> length p' = nat pl
         \<and> (case prefix of None \<Rightarrow> first = None | Some p \<Rightarrow> p \<noteq> [] \<and> first = Some (p ! 0))
         \<and> prefill model s p' (py_range 0 pl) first = (s1, t1, p1)
         \<and> decode_n_tokens model s1 t1 [pl] (mnt - 1) terminator_ids
              (map_option (\<lambda>p. py_drop p 1) prefix) = Inr (s', toks, ps)
         \<and> probs = p1 # ps
         \<and> seq = p' @ t1 # toks
         \<and> - 1 \<notin> set seq"
proof -
  from generate_shape [OF gen split] obtain first s1 t1 p1 toks ps where
    pl: "0 \<le> pl" and mnt: "1 \<le> mnt" and len: "length p' = nat pl"
    and first: "case prefix of None \<Rightarrow> first = None | Some p \<Rightarrow> p \<noteq> [] \<and> first = Some (p ! 0)"
    and pre: "prefill model s p' (py_range 0 pl) first = (s1, t1, p1)"
    and dec: "decode_n_tokens model s1 t1 [pl] (mnt - 1) terminator_ids
              (map_option (\<lambda>p. py_drop p 1) prefix) = Inr (s', toks, ps)"
    and probs: "probs = p1 # ps"
    and seq: "seq = (if - 1 \<in> set (p' @ t1 # toks @ replicate (nat (mnt - 1) - length toks) (- 1))
                  then takeWhile (\<lambda>t. t \<noteq> - 1)
                         (p' @ t1 # toks @ replicate (nat (mnt - 1) - length toks) (- 1))
                  else p' @ t1 # toks @ replicate (nat (mnt - 1) - length toks) (- 1))"
    by blast
  from long_prompt_split_lengths [OF split pl]
  have sub: "set p' \<subseteq> set prompt" and pre_sub: "\<forall>p. prefix = Some p \<longrightarrow> p' @ p = prompt \<and> p \<noteq> []"
    by blast+
  have psub: "set p \<subseteq> set prompt" if "prefix = Some p" for p
  proof -
    from pre_sub that have "p' @ p = prompt" by blast
    then have "set p' \<union> set p = set prompt" by (simp only: set_append [symmetric])
    then show ?thesis by blast
  qed
  have c1: "- 1 \<notin> set p'" using sub clean by blast
  have c2: "t1 \<noteq> - 1"
  proof (cases prefix)
    case None
    with first prefill_token [OF pre] show ?thesis by auto
  next
    case (Some p)
    with first have "p \<noteq> []" "first = Some (p ! 0)" by simp_all
    with prefill_token [OF pre] have "t1 \<in> set p" by (cases p) simp_all
    with psub [OF Some] clean show ?thesis by blast
  qed
  have c3: "- 1 \<notin> set toks"
  proof
    assume "- 1 \<in> set toks"
    then obtain j where j: "j < length toks" "toks ! j = - 1"
      unfolding in_set_conv_nth by blast
    from decode_n_tokens_stops [OF dec] j(1)
    have "(\<exists>p. map_option (\<lambda>p. py_drop p 1) prefix = Some p \<and> j < length p \<and> toks ! j = p ! j)
            \<or> 0 \<le> toks ! j"
      by blast
    with j(2) obtain q where q: "map_option (\<lambda>p. py_drop p 1) prefix = Some q" "j < length q"
        "q ! j = - 1"
      by auto
    from q(1) obtain p where p: "prefix = Some p" "q = py_drop p 1" by auto
    from nth_mem [OF q(2)] q(3) have "- 1 \<in> set q" by simp
    with p(2) set_py_drop [of p 1] have "- 1 \<in> set p" by (simp add: subset_iff)
    with psub [OF p(1)] clean show False by blast
  qed
  let ?front = "p' @ t1 # toks"
  let ?k = "nat (mnt - 1) - length toks"
  have front: "\<forall>t\<in>set ?front. t \<noteq> - 1" using c1 c2 c3 by auto
  have sb: "p' @ t1 # toks @ replicate ?k (- 1) = ?front @ replicate ?k (- 1)" by simp
  have "seq = ?front"
  proof (cases "?k = 0")
    case True
    with front seq show ?thesis by auto
  next
    case False
    then have "- 1 \<in> set (?front @ replicate ?k (- 1))" by simp
    with seq have "seq = takeWhile (\<lambda>t. t \<noteq> - 1) (?front @ replicate ?k (- 1))"
      unfolding sb by (simp only: if_True)
    also have "\<dots> = ?front @ takeWhile (\<lambda>t. t \<noteq> - 1) (replicate ?k (- 1))"
    proof (rule takeWhile_append2)
      fix t assume "t \<in> set ?front"
      with front show "t \<noteq> - 1" by blast
    qed
    also have "takeWhile (\<lambda>t. t \<noteq> - 1) (replicate ?k (- 1 :: int)) = []"
      by (cases ?k) simp_all
    finally show ?thesis by simp
  qed
  with front pl mnt len first pre dec probs show ?thesis by blast
qed

text \<open>
  Claim C6.  With \<open>max_prompt_len = min_cache_length - 1\<close>, the prompt is split exactly
  when long-prompt feeding is enabled and the prompt is longer than \<open>max_prompt_len\<close>, or
  the prompt is exactly \<open>min_cache_length\<close> long; otherwise prompt, budget and length are
  left as they are.  A split cuts the prompt into the part to prefill and the prefix to
  teacher-force, sets \<open>prompt_length\<close> to \<open>max_prompt_len\<close> and adds the length of the
  prefix to \<open>max_new_tokens\<close>.  For a cache length of at least one the prefilled part has
  exactly \<open>max_prompt_len\<close> tokens and the prefix is not empty; in the edge case of equal
  lengths the prefix has one token and \<open>max_new_tokens\<close> grows by one.
\<close>

theorem long_prompt_split_spec:
  assumes "long_prompt_split mcl feed prompt mnt0 = (p', prefix, mnt, pl)"
  shows "(prefix \<noteq> None \<longleftrightarrow>
            (feed \<and> int (length prompt) > mcl - 1) \<or> int (length prompt) = mcl)
       \<and> (prefix = None \<longrightarrow> p' = prompt \<and> mnt = mnt0 \<and> pl = int (length prompt))
       \<and> (\<forall>p. prefix = Some p \<longrightarrow>
              p' @ p = prompt \<and> mnt = mnt0 + int (length p) \<and> pl = mcl - 1
            \<and> (1 \<le> mcl \<longrightarrow> int (length p') = mcl - 1 \<and> p \<noteq> [])
            \<and> (1 \<le> mcl \<and> int (length prompt) = mcl \<longrightarrow> length p = 1 \<and> mnt = mnt0 + 1))"
proof -
  from long_prompt_split_cases [OF assms] consider
    (whole) "\<not> ((feed \<and> int (length prompt) > mcl - 1) \<or> int (length prompt) = mcl)"
      "p' = prompt" "prefix = None" "mnt = mnt0" "pl = int (length prompt)"
  | (cut) "(feed \<and> int (length prompt) > mcl - 1) \<or> int (length prompt) = mcl"
      "p' = py_take prompt (mcl - 1)" "prefix = Some (py_drop prompt (mcl - 1))"
      "mnt = mnt0 + int (length (py_drop prompt (mcl - 1)))" "pl = mcl - 1"
    by blast
  then show ?thesis
  proof cases
    case whole
    then show ?thesis by simp
  next
    case cut
    let ?p = "py_drop prompt (mcl - 1)"
    have app: "p' @ ?p = prompt" using cut(2) by (simp add: py_take_drop)
    have pos: "int (length p') = mcl - 1 \<and> ?p \<noteq> []" if "1 \<le> mcl"
    proof -
      from that cut(5) have "0 \<le> pl" by simp
      from long_prompt_split_lengths [OF assms this] cut(3,5) that show ?thesis by simp
    qed
    have edge: "length ?p = 1 \<and> mnt = mnt0 + 1" if "1 \<le> mcl" "int (length prompt) = mcl"
    proof -
      from pos [OF that(1)] have "int (length p') = mcl - 1" by blast
      moreover from arg_cong [OF app, of length] have "length p' + length ?p = length prompt"
        by simp
      ultimately have "length ?p = 1" using that(2) by linarith
      with cut(4) show ?thesis by simp
    qed
    have "\<forall>p. prefix = Some p \<longrightarrow>
              p' @ p = prompt \<and> mnt = mnt0 + int (length p) \<and> pl = mcl - 1
            \<and> (1 \<le> mcl \<longrightarrow> int (length p') = mcl - 1 \<and> p \<noteq> [])
            \<and> (1 \<le> mcl \<and> int (length prompt) = mcl \<longrightarrow> length p = 1 \<and> mnt = mnt0 + 1)"
    proof (intro allI impI)
      fix p assume "prefix = Some p"
      with cut(3) have p: "p = ?p" by simp
      from app cut(4,5) pos edge
      show "p' @ p = prompt \<and> mnt = mnt0 + int (length p) \<and> pl = mcl - 1
            \<and> (1 \<le> mcl \<longrightarrow> int (length p') = mcl - 1 \<and> p \<noteq> [])
            \<and> (1 \<le> mcl \<and> int (length prompt) = mcl \<longrightarrow> length p = 1 \<and> mnt = mnt0 + 1)"
        unfolding p by blast
    qed
    moreover have "prefix \<noteq> None" using cut(3) by simp
    ultimately show ?thesis using cut(1) by blast
  qed
qed

text \<open>
  The spec's example: a prompt of 16 tokens against a smallest cache of 16 is split into
  15 tokens and a prefix of one, and the budget of 10 becomes 11.  A prompt of 17 tokens is
  split only when long-prompt feeding is enabled.
\<close>

theorem long_prompt_split_spec_witness:
  "long_prompt_split 16 False (map int [0..<16]) 10
     = (map int [0..<15], Some [15], 11, 15)
   \<and> int (length (map int [0..<16])) = 16
   \<and> int (length (map int [0..<15])) = 16 - 1
   \<and> length [15 :: int] = 1
   \<and> (11 :: int) = 10 + 1
   \<and> long_prompt_split 16 False (map int [0..<17]) 10 = (map int [0..<17], None, 10, 17)
   \<and> long_prompt_split 16 True (map int [0..<17]) 10 = (map int [0..<15], Some [15, 16], 12, 15)"
proof -
  have a: "long_prompt_split 16 False (map int [0..<16]) 10
             = (map int [0..<15], Some [15], 11, 15)"
    by code_simp
  have b: "long_prompt_split 16 False (map int [0..<17]) 10 = (map int [0..<17], None, 10, 17)"
    by code_simp
  have c: "long_prompt_split 16 True (map int [0..<17]) 10
             = (map int [0..<15], Some [15, 16], 12, 15)"
    by code_simp
  have h1: "(1::int) \<le> 16" by simp
  have h2: "int (length (map int [0..<16])) = 16" by simp
  note spec = long_prompt_split_spec [OF a, THEN conjunct2, THEN conjunct2, rule_format, OF refl]
  from spec h1 h2
  have d: "int (length (map int [0..<15])) = 16 - 1 \<and> length [15 :: int] = 1 \<and> (11 :: int) = 10 + 1"
    by blast
  from a h2 d b c show ?thesis by blast
qed

text \<open>
  Claim C7.  Consider a run of \<open>generate\<close> that returns, on a prompt without the sentinel
  \<open>-1\<close>.  The returned sequence is the prefilled prompt, the token of the prefill and the
  tokens \<open>toks\<close> of \<open>decode_n_tokens\<close>, with no sentinel in it: the unfilled tail of the
  buffer is cut off.  A decode step that is not teacher-forced and whose token is a
  terminator is the last one: its token is appended and nothing follows.  The loop ends
  before its budget only in this way, so a teacher-forced step never ends it, whatever
  its token.  Decode step \<open>j\<close> is teacher-forced when the prefix has an element \<open>j + 1\<close>,
  element 0 being forced on the prefill.  Counting the prefill's token as the first
  generated token, a first sampled terminator at the fifth token gives the prompt and
  exactly five generated tokens.
\<close>

theorem generate_stops_at_terminator:
  assumes gen: "generate model s prompt mnt0 terminator_ids feed = Inr (s', seq, probs)"
    and split: "long_prompt_split (min_cache_length model s) feed prompt mnt0 = (p', prefix, mnt, pl)"
    and clean: "- 1 \<notin> set prompt"
  shows "\<exists>first s1 t1 p1 toks ps.
           prefill model s p' (py_range 0 pl) first = (s1, t1, p1)
         \<and> decode_n_tokens model s1 t1 [pl] (mnt - 1) terminator_ids
              (map_option (\<lambda>p. py_drop p 1) prefix) = Inr (s', toks, ps)
         \<and> seq = p' @ t1 # toks
         \<and> - 1 \<notin> set seq
         \<and> length toks \<le> nat (mnt - 1)
         \<and> (\<forall>j<length toks.
               (\<exists>ts. terminator_ids = Some ts \<and> toks ! j \<in> set ts)
               \<and> \<not> (\<exists>p. prefix = Some p \<and> Suc j < length p)
               \<longrightarrow> Suc j = length toks)
         \<and> (length toks < nat (mnt - 1) \<longrightarrow>
               toks \<noteq> [] \<and> (\<exists>ts. terminator_ids = Some ts \<and> last toks \<in> set ts)
               \<and> \<not> (\<exists>p. prefix = Some p \<and> length toks < length p))"
proof -
  from generate_no_sentinel [OF gen split clean] obtain first s1 t1 p1 toks ps where
    first: "case prefix of None \<Rightarrow> first = None | Some p \<Rightarrow> p \<noteq> [] \<and> first = Some (p ! 0)"
    and pre: "prefill model s p' (py_range 0 pl) first = (s1, t1, p1)"
    and dec: "decode_n_tokens model s1 t1 [pl] (mnt - 1) terminator_ids
              (map_option (\<lambda>p. py_drop p 1) prefix) = Inr (s', toks, ps)"
    and seq: "seq = p' @ t1 # toks" "- 1 \<notin> set seq"
    by blast
  let ?q = "map_option (\<lambda>p. py_drop p 1) prefix"
  have forced: "(\<exists>q. ?q = Some q \<and> j < length q) \<longleftrightarrow> (\<exists>p. prefix = Some p \<and> Suc j < length p)"
    for j
  proof (cases prefix)
    case None
    then show ?thesis by simp
  next
    case (Some p)
    have "length (py_drop p 1) = length p - 1"
      by (simp add: py_drop_def slice_index_def)
    with Some show ?thesis by auto
  qed
  from decode_n_tokens_stops [OF dec]
  have len: "length toks \<le> nat (mnt - 1)"
    and halt: "\<forall>j<length toks.
             (\<exists>ts. terminator_ids = Some ts \<and> toks ! j \<in> set ts)
             \<and> \<not> (\<exists>q. ?q = Some q \<and> j < length q)
             \<longrightarrow> Suc j = length toks"
    and early: "length toks < nat (mnt - 1) \<longrightarrow>
             toks \<noteq> [] \<and> (\<exists>ts. terminator_ids = Some ts \<and> last toks \<in> set ts)
             \<and> \<not> (\<exists>q. ?q = Some q \<and> length toks - 1 < length q)"
    by blast+
  have halt': "\<forall>j<length toks.
               (\<exists>ts. terminator_ids = Some ts \<and> toks ! j \<in> set ts)
               \<and> \<not> (\<exists>p. prefix = Some p \<and> Suc j < length p)
               \<longrightarrow> Suc j = length toks"
    using halt unfolding forced .
  have early': "length toks < nat (mnt - 1) \<longrightarrow>
               toks \<noteq> [] \<and> (\<exists>ts. terminator_ids = Some ts \<and> last toks \<in> set ts)
               \<and> \<not> (\<exists>p. prefix = Some p \<and> length toks < length p)"
  proof
    assume "length toks < nat (mnt - 1)"
    with early have ne: "toks \<noteq> []"
      and t: "\<exists>ts. terminator_ids = Some ts \<and> last toks \<in> set ts"
      and f: "\<not> (\<exists>p. prefix = Some p \<and> Suc (length toks - 1) < length p)"
      unfolding forced by blast+
    from ne have "Suc (length toks - 1) = length toks" by simp
    with f have "\<not> (\<exists>p. prefix = Some p \<and> length toks < length p)" by simp
    with ne t show "toks \<noteq> [] \<and> (\<exists>ts. terminator_ids = Some ts \<and> last toks \<in> set ts)
               \<and> \<not> (\<exists>p. prefix = Some p \<and> length toks < length p)"
      by blast
  qed
  from pre dec seq len halt' early' show ?thesis by blast
qed

text \<open>
  Claim C10.  When \<open>generate\<close> returns on a prompt without the sentinel \<open>-1\<close>, the returned
  sequence begins with the prompt that was prefilled (the whole prompt, or its first
  \<open>max_prompt_len\<close> tokens after a split), unchanged, and is strictly longer than it: the
  prefill and the decode steps write behind it.
\<close>

theorem generate_keeps_prompt:
  assumes gen: "generate model s prompt mnt0 terminator_ids feed = Inr (s', seq, probs)"
    and split: "long_prompt_split (min_cache_length model s) feed prompt mnt0 = (p', prefix, mnt, pl)"
    and clean: "- 1 \<notin> set prompt"
  shows "take (length p') seq = p' \<and> length p' < length seq \<and> int (length p') = pl
       \<and> p' = take (length p') prompt"
proof -
  from generate_no_sentinel [OF gen split clean] obtain t1 toks where
    pl: "0 \<le> pl" and len: "length p' = nat pl" and seq: "seq = p' @ t1 # toks"
    by blast
  from long_prompt_split_lengths [OF split pl]
  have "\<forall>p. prefix = Some p \<longrightarrow> p' @ p = prompt" by blast
  moreover from long_prompt_split_cases [OF split] have "prefix = None \<longrightarrow> p' = prompt" by blast
  ultimately have "\<exists>rest. p' @ rest = prompt"
    by (cases prefix) (simp_all, metis append_Nil2)
  then obtain rest where "p' @ rest = prompt" ..
  from arg_cong [OF this, of "take (length p')"] have "p' = take (length p') prompt"
    by simp
  with pl len seq show ?thesis by simp
qed

subsection \<open>Examples of generation runs\<close>

lemma scripted_model_simps:
  "forward (scripted_model c script) s x input_pos causal = (Suc s, s)"
  "min_cache_length (scripted_model c script) s = c"
  "softmax (scripted_model c script) l = l"
  "argmax (scripted_model c script) p = (if p < length script then script ! p else 7)"
  by (simp_all add: scripted_model_def)

lemma decode_loop_numeral:
  "decode_loop model terminator_ids prefix (numeral k) i s cur_token input_pos new_tokens new_probs
     = decode_loop model terminator_ids prefix (Suc (pred_numeral k)) i s cur_token input_pos
         new_tokens new_probs"
  by (simp only: numeral_eq_Suc)

lemmas decode_loop_unroll = decode_loop_numeral [unfolded decode_loop.simps(2)]

lemma replicate_numeral: "replicate (numeral k) x = x # replicate (pred_numeral k) x"
  by (simp add: numeral_eq_Suc)

lemma example_split_none:
  "long_prompt_split (min_cache_length example_model 0) False [1, 2, 3] 10 = ([1, 2, 3], None, 10, 3)"
  by (simp add: example_model_def scripted_model_simps long_prompt_split_def)

lemma example_prefill:
  "prefill example_model 0 [1, 2, 3] (py_range 0 3) None = (Suc 0, 10, 0)"
  by (simp add: example_model_def scripted_model_simps prefill_def greedy_def)

lemma example_decode_stop:
  "decode_n_tokens example_model (Suc 0) 10 [3] 9 (Some [50256]) None
     = Inr (5, [11, 12, 13, 50256], [1, 2, 3, 4])"
  by (simp add: example_model_def scripted_model_simps decode_n_tokens_def decode_one_token_def
      greedy_def Let_def decode_loop_unroll)

lemma example_generate_stop:
  "generate example_model 0 [1, 2, 3] 10 (Some [50256]) False
     = Inr (5, [1, 2, 3, 10, 11, 12, 13, 50256], [0, 1, 2, 3, 4])"
  by (simp add: generate_def example_split_none example_prefill example_decode_stop
      slice_assign_def slice_index_def index_assign_def Let_def replicate_numeral)

lemma example_split_forced:
  "long_prompt_split (min_cache_length example_model_small 0) True [5, 6, 50256, 50256, 9] 3
     = ([5, 6], Some [50256, 50256, 9], 6, 2)"
  by (simp add: example_model_small_def scripted_model_simps long_prompt_split_def
      py_take_def py_drop_def slice_index_def)

lemma example_prefill_forced:
  "prefill example_model_small 0 [5, 6] (py_range 0 2) (Some 50256) = (Suc 0, 50256, 0)"
  by (simp add: example_model_small_def scripted_model_simps prefill_def greedy_def)

lemma example_decode_forced:
  "decode_n_tokens example_model_small (Suc 0) 50256 [2] 5 (Some [50256]) (Some [50256, 9])
     = Inr (5, [50256, 9, 13, 50256], [1, 2, 3, 4])"
  by (simp add: example_model_small_def scripted_model_simps decode_n_tokens_def
      decode_one_token_def greedy_def Let_def decode_loop_unroll)

lemma example_generate_forced:
  "generate example_model_small 0 [5, 6, 50256, 50256, 9] 3 (Some [50256]) True
     = Inr (5, [5, 6, 50256, 50256, 9, 13, 50256], [0, 1, 2, 3, 4])"
  by (simp add: generate_def example_split_forced example_prefill_forced example_decode_forced
      slice_assign_def slice_index_def index_assign_def py_drop_def Let_def replicate_numeral)

text \<open>
  With the terminator 50256 and a model whose fifth greedy token is 50256, generation
  from the prompt \<open>[1, 2, 3]\<close> with a budget of ten tokens returns the prompt and exactly
  five generated tokens, the last being the terminator, with no sentinel behind it.  In
  the second run the prompt is split and its tail \<open>[50256, 50256, 9]\<close> is teacher-forced:
  the two forced terminators do not stop the run, the first sampled terminator does.
\<close>

theorem generate_stops_at_terminator_witness:
  "generate example_model 0 [1, 2, 3] 10 (Some [50256]) False
     = Inr (5, [1, 2, 3, 10, 11, 12, 13, 50256], [0, 1, 2, 3, 4])
   \<and> long_prompt_split (min_cache_length example_model 0) False [1, 2, 3] 10
       = ([1, 2, 3], None, 10, 3)
   \<and> - 1 \<notin> set [1, 2, 3 :: int]
   \<and> length [1, 2, 3, 10, 11, 12, 13, 50256 :: int] = length [1, 2, 3 :: int] + 5
   \<and> - 1 \<notin> set [1, 2, 3, 10, 11, 12, 13, 50256 :: int]
   \<and> generate example_model_small 0 [5, 6, 50256, 50256, 9] 3 (Some [50256]) True
       = Inr (5, [5, 6, 50256, 50256, 9, 13, 50256], [0, 1, 2, 3, 4])
   \<and> long_prompt_split (min_cache_length example_model_small 0) True [5, 6, 50256, 50256, 9] 3
       = ([5, 6], Some [50256, 50256, 9], 6, 2)
   \<and> - 1 \<notin> set [5, 6, 50256, 50256, 9, 13, 50256 :: int]"
proof -
  have c1: "- 1 \<notin> set [1, 2, 3 :: int]" by simp
  have c2: "- 1 \<notin> set [5, 6, 50256, 50256, 9 :: int]" by simp
  from generate_stops_at_terminator [OF example_generate_stop example_split_none c1]
  have n1: "- 1 \<notin> set [1, 2, 3, 10, 11, 12, 13, 50256 :: int]" by blast
  from generate_stops_at_terminator [OF example_generate_forced example_split_forced c2]
  have n2: "- 1 \<notin> set [5, 6, 50256, 50256, 9, 13, 50256 :: int]" by blast
  have l: "length [1, 2, 3, 10, 11, 12, 13, 50256 :: int] = length [1, 2, 3 :: int] + 5" by simp
  from example_generate_stop example_split_none c1 l n1 example_generate_forced
    example_split_forced n2
  show ?thesis by blast
qed

lemma example_split_edge:
  "long_prompt_split (min_cache_length example_model_small 0) False [5, 6, 50256] 3
     = ([5, 6], Some [50256], 4, 2)"
  by (simp add: example_model_small_def scripted_model_simps long_prompt_split_def
      py_take_def py_drop_def slice_index_def)

lemma example_decode_edge:
  "decode_n_tokens example_model_small (Suc 0) 50256 [2] 3 (Some [50256]) (Some [])
     = Inr (4, [11, 12, 13], [1, 2, 3])"
  by (simp add: example_model_small_def scripted_model_simps decode_n_tokens_def
      decode_one_token_def greedy_def Let_def decode_loop_unroll)

lemma example_generate_edge:
  "generate example_model_small 0 [5, 6, 50256] 3 (Some [50256]) False
     = Inr (4, [5, 6, 50256, 11, 12, 13], [0, 1, 2, 3])"
  by (simp add: generate_def example_split_edge example_prefill_forced example_decode_edge
      slice_assign_def slice_index_def index_assign_def py_drop_def Let_def replicate_numeral)

text \<open>
  The edge case of a prompt as long as the smallest cache: \<open>[5, 6, 50256]\<close> against a
  capacity of 3 is prefilled as \<open>[5, 6]\<close>, and the returned sequence begins with it.
\<close>

theorem generate_keeps_prompt_witness:
  "generate example_model_small 0 [5, 6, 50256] 3 (Some [50256]) False
     = Inr (4, [5, 6, 50256, 11, 12, 13], [0, 1, 2, 3])
   \<and> long_prompt_split (min_cache_length example_model_small 0) False [5, 6, 50256] 3
       = ([5, 6], Some [50256], 4, 2)
   \<and> - 1 \<notin> set [5, 6, 50256 :: int]
   \<and> take (length [5, 6 :: int]) [5, 6, 50256, 11, 12, 13] = [5, 6 :: int]
   \<and> length [5, 6 :: int] < length [5, 6, 50256, 11, 12, 13 :: int]"
proof -
  have c: "- 1 \<notin> set [5, 6, 50256 :: int]" by simp
  from generate_keeps_prompt [OF example_generate_edge example_split_edge c]
  have "take (length [5, 6 :: int]) [5, 6, 50256, 11, 12, 13] = [5, 6 :: int]
      \<and> length [5, 6 :: int] < length [5, 6, 50256, 11, 12, 13 :: int]"
    by blast
  with example_generate_edge example_split_edge c show ?thesis by blast
qed

end
